theory Spec2Isabelle
  imports Complex_Main "HOL-Library.Log_Nat"
begin

section \<open>Python values and exceptions\<close>

text \<open>
  The widgets of \<^verbatim>\<open>Widget_Classes.py\<close> are embedded as state-passing functions.
  Every method takes the object's fields as a record and returns the updated record,
  or the exception it raises. The calls into Qt that the methods make are kept as
  effects in the record: \<^verbatim>\<open>self.update()\<close> counts a redraw request and
  \<^verbatim>\<open>print(...)\<close> appends the printed arguments to the console.
\<close>

datatype error = IndexError | ValueError | ZeroDivisionError | OverflowError

text \<open>The arguments of one \<^verbatim>\<open>print\<close> call.\<close>

datatype pyval = Str string | IntList "int list"

definition bind_err :: "error + 'a \<Rightarrow> ('a \<Rightarrow> error + 'b) \<Rightarrow> error + 'b" where
  "bind_err m f = (case m of Inl e \<Rightarrow> Inl e | Inr x \<Rightarrow> f x)"

text \<open>\<^verbatim>\<open>xs[i]\<close> for a non-negative index: out of range raises.\<close>

definition getitem :: "'a list \<Rightarrow> nat \<Rightarrow> error + 'a" where
  "getitem xs i = (if i < length xs then Inr (xs ! i) else Inl IndexError)"

text \<open>\<^verbatim>\<open>xs[i] = v\<close> for a non-negative index: out of range raises.\<close>

definition setitem :: "'a list \<Rightarrow> nat \<Rightarrow> 'a \<Rightarrow> error + 'a list" where
  "setitem xs i v = (if i < length xs then Inr (xs[i := v]) else Inl IndexError)"

text \<open>\<^verbatim>\<open>xs.index(x)\<close>: the first position of \<open>x\<close>, ValueError when absent.\<close>

fun index_of :: "'a list \<Rightarrow> 'a \<Rightarrow> error + nat" where
  "index_of [] x = Inl ValueError"
| "index_of (y # ys) x =
     (if y = x then Inr 0 else bind_err (index_of ys x) (\<lambda>i. Inr (Suc i)))"

section \<open>Python floats\<close>

text \<open>
  A Python float is an IEEE-754 binary64 number. A finite one is kept as the rational
  it denotes; the sign of zero is dropped, since nothing here divides by a zero (Python
  raises instead) or reads the sign. Every arithmetic operation computes the exact
  rational result and rounds it to the nearest float, ties to the even significand;
  a result of magnitude \<open>2^1024\<close> or more after rounding is infinite.
\<close>

datatype pyfloat = Finite rat | PosInf | NegInf | NaN

definition round_half_even :: "rat \<Rightarrow> int" where
  "round_half_even x =
     (let f = \<lfloor>x\<rfloor>; d = x - of_int f
      in if d < 1 / 2 then f else if 1 / 2 < d then f + 1 else if even f then f else f + 1)"

text \<open>The exponent \<open>e\<close> with \<open>2^e \<le> |x| < 2^(e+1)\<close>, for \<open>x \<noteq> 0\<close>.\<close>

definition binade :: "rat \<Rightarrow> int" where
  "binade x = (if 1 \<le> \<bar>x\<bar> then bitlen \<lfloor>\<bar>x\<bar>\<rfloor> - 1 else - bitlen (\<lceil>1 / \<bar>x\<bar>\<rceil> - 1))"

text \<open>
  The spacing of the floats around \<open>x\<close>: 53 significant bits, and the spacing of
  the subnormal numbers below \<open>2^-1022\<close>.
\<close>

definition ulp :: "rat \<Rightarrow> rat" where
  "ulp x = 2 powi (max (binade x) (- 1022) - 52)"

definition round_to_ulp :: "rat \<Rightarrow> rat" where
  "round_to_ulp x = of_int (round_half_even (x / ulp x)) * ulp x"

definition float_round :: "rat \<Rightarrow> pyfloat" where
  "float_round x =
     (if x = 0 then Finite 0
      else let y = round_to_ulp x
           in if 2 ^ 1024 \<le> y then PosInf
              else if y \<le> - (2 ^ 1024) then NegInf
              else Finite y)"

text \<open>A decimal literal of the source, such as \<^verbatim>\<open>.5\<close>: the nearest float.\<close>

definition float_lit :: "rat \<Rightarrow> pyfloat" where
  "float_lit q = float_round q"

text \<open>
  The conversion Python applies to an \<^verbatim>\<open>int\<close> operand of a float operation:
  correctly rounded, and OverflowError when the integer is too large for a float.
\<close>

definition float_of_int :: "int \<Rightarrow> error + pyfloat" where
  "float_of_int n =
     (case float_round (of_int n) of Finite y \<Rightarrow> Inr (Finite y) | _ \<Rightarrow> Inl OverflowError)"

text \<open>\<^verbatim>\<open>x * y\<close> on floats.\<close>

fun float_mul :: "pyfloat \<Rightarrow> pyfloat \<Rightarrow> pyfloat" where
  "float_mul NaN y = NaN"
| "float_mul x NaN = NaN"
| "float_mul (Finite a) (Finite b) = float_round (a * b)"
| "float_mul (Finite a) PosInf = (if a = 0 then NaN else if 0 < a then PosInf else NegInf)"
| "float_mul (Finite a) NegInf = (if a = 0 then NaN else if 0 < a then NegInf else PosInf)"
| "float_mul PosInf (Finite b) = (if b = 0 then NaN else if 0 < b then PosInf else NegInf)"
| "float_mul NegInf (Finite b) = (if b = 0 then NaN else if 0 < b then NegInf else PosInf)"
| "float_mul PosInf PosInf = PosInf"
| "float_mul PosInf NegInf = NegInf"
| "float_mul NegInf PosInf = NegInf"
| "float_mul NegInf NegInf = PosInf"

text \<open>\<^verbatim>\<open>x / y\<close> on floats: a zero divisor raises, whatever the dividend.\<close>

fun float_div :: "pyfloat \<Rightarrow> pyfloat \<Rightarrow> error + pyfloat" where
  "float_div x (Finite b) =
     (if b = 0 then Inl ZeroDivisionError
      else case x of
        Finite a \<Rightarrow> Inr (float_round (a / b))
      | PosInf \<Rightarrow> Inr (if 0 < b then PosInf else NegInf)
      | NegInf \<Rightarrow> Inr (if 0 < b then NegInf else PosInf)
      | NaN \<Rightarrow> Inr NaN)"
| "float_div NaN y = Inr NaN"
| "float_div x NaN = Inr NaN"
| "float_div (Finite a) y = Inr (Finite 0)"
| "float_div x y = Inr NaN"

text \<open>The mixed operations: the \<^verbatim>\<open>int\<close> operand is converted first.\<close>

definition int_mul_float :: "int \<Rightarrow> pyfloat \<Rightarrow> error + pyfloat" where
  "int_mul_float n x = bind_err (float_of_int n) (\<lambda>y. Inr (float_mul y x))"

definition float_mul_int :: "pyfloat \<Rightarrow> int \<Rightarrow> error + pyfloat" where
  "float_mul_int x n = bind_err (float_of_int n) (\<lambda>y. Inr (float_mul x y))"

definition int_div_float :: "int \<Rightarrow> pyfloat \<Rightarrow> error + pyfloat" where
  "int_div_float n x = bind_err (float_of_int n) (\<lambda>y. float_div y x)"

text \<open>
  \<^verbatim>\<open>a / b\<close> on two integers: the exact quotient, rounded once; OverflowError when
  it is too large for a float.
\<close>

definition int_true_div :: "int \<Rightarrow> int \<Rightarrow> error + pyfloat" where
  "int_true_div a b =
     (if b = 0 then Inl ZeroDivisionError
      else case float_round (of_int a / of_int b) of
        Finite y \<Rightarrow> Inr (Finite y) | _ \<Rightarrow> Inl OverflowError)"

text \<open>\<^verbatim>\<open>int(x)\<close>: truncation towards zero.\<close>

fun int_of_float :: "pyfloat \<Rightarrow> error + int" where
  "int_of_float (Finite y) = Inr (if 0 \<le> y then \<lfloor>y\<rfloor> else \<lceil>y\<rceil>)"
| "int_of_float NaN = Inl ValueError"
| "int_of_float x = Inl OverflowError"

text \<open>\<^verbatim>\<open>x < n\<close> and \<^verbatim>\<open>n >= x\<close> for a float and an integer: Python compares exactly.\<close>

fun float_less_int :: "pyfloat \<Rightarrow> int \<Rightarrow> bool" where
  "float_less_int (Finite a) n \<longleftrightarrow> a < of_int n"
| "float_less_int NegInf n \<longleftrightarrow> True"
| "float_less_int x n \<longleftrightarrow> False"

fun int_ge_float :: "int \<Rightarrow> pyfloat \<Rightarrow> bool" where
  "int_ge_float n (Finite a) \<longleftrightarrow> a \<le> of_int n"
| "int_ge_float n NegInf \<longleftrightarrow> True"
| "int_ge_float n x \<longleftrightarrow> False"

section \<open>QWidget\<close>

text \<open>
  What every widget class inherits from \<^verbatim>\<open>QWidget\<close>, as far as the methods below use it:
  the redraw requests made through \<^verbatim>\<open>self.update()\<close>, and the lines written by
  \<^verbatim>\<open>print\<close>.
\<close>

record QWidget =
  console :: "pyval list list"
  redraws :: nat

text \<open>\<^verbatim>\<open>self.update()\<close>: request a redraw.\<close>

definition update :: "'a QWidget_scheme \<Rightarrow> 'a QWidget_scheme" where
  "update s = s\<lparr>redraws := Suc (redraws s)\<rparr>"

text \<open>\<^verbatim>\<open>print(*args)\<close>\<close>

definition print :: "pyval list \<Rightarrow> 'a QWidget_scheme \<Rightarrow> 'a QWidget_scheme" where
  "print args s = s\<lparr>console := console s @ [args]\<rparr>"

section \<open>Variable_Section: the two-step entry\<close>

text \<open>
  The fields that \<^verbatim>\<open>change_widget\<close>, \<^verbatim>\<open>update_two_step\<close> and
  \<^verbatim>\<open>move_two_step\<close> read or write. Strings stay strings, lists stay lists.
\<close>

record Variable_Section = QWidget +
  current_widget :: string
  new_two_step_bounds :: "int list"
  two_step_digit_list :: "string list"
  selected_two_step_digit :: string
  two_step_bound :: string
  two_step_current_digit_values :: "int list"
  two_step_value_up :: bool
  two_step_bad_input :: bool

text \<open>
  \<^verbatim>\<open>Variable_Section.__init__\<close>. The argument is what
  \<^verbatim>\<open>QFontDatabase.addApplicationFont\<close> returned; a negative id prints ERROR.
\<close>

definition Variable_Section_init :: "int \<Rightarrow> Variable_Section" where
  "Variable_Section_init font_id =
     \<lparr> console = (if font_id < 0 then [[Str ''ERROR'']] else []),
       redraws = 0,
       current_widget = ''Startup'',
       new_two_step_bounds = [0, 0],
       two_step_digit_list =
         [''first_digit'', ''second_digit'', ''third_digit'', ''forth_digit'', ''rmp_digit''],
       selected_two_step_digit = ''first_digit'',
       two_step_bound = ''Upper'',
       two_step_current_digit_values = [0, 0, 0, 0],
       two_step_value_up = True,
       two_step_bad_input = False \<rparr>"

text \<open>
  \<^verbatim>\<open>change_widget(new_widget)\<close>: entering Two-Step resets the whole session,
  any other widget leaves the session fields as they are.
\<close>

definition change_widget :: "string \<Rightarrow> Variable_Section \<Rightarrow> Variable_Section" where
  "change_widget new_widget s =
     (let s1 = s\<lparr>current_widget := new_widget\<rparr>;
          s2 = (if new_widget = ''Two-Step''
                then s1\<lparr> new_two_step_bounds := [0, 0],
                         selected_two_step_digit := ''first_digit'',
                         two_step_bound := ''Upper'',
                         two_step_current_digit_values := [0, 0, 0, 0],
                         two_step_value_up := True,
                         two_step_bad_input := False \<rparr>
                else s1)
      in update s2)"

text \<open>
  The body shared by the four digit cases of \<^verbatim>\<open>update_two_step\<close>:
  \<^verbatim>\<open>self.two_step_current_digit_values[i] = (self.two_step_current_digit_values[i] + value) % 10\<close>.
  Python's \<^verbatim>\<open>%\<close> with a positive divisor is \<open>mod\<close> on \<open>int\<close>.
\<close>

definition bump_digit :: "nat \<Rightarrow> int \<Rightarrow> Variable_Section \<Rightarrow> error + Variable_Section" where
  "bump_digit i v s =
     bind_err (getitem (two_step_current_digit_values s) i) (\<lambda>d.
     bind_err (setitem (two_step_current_digit_values s) i ((d + v) mod 10)) (\<lambda>ds.
     Inr (s\<lparr>two_step_current_digit_values := ds\<rparr>)))"

text \<open>\<^verbatim>\<open>update_two_step(value)\<close>: the \<^verbatim>\<open>match\<close> on the selected digit, then a redraw.\<close>

definition update_two_step :: "int \<Rightarrow> Variable_Section \<Rightarrow> error + Variable_Section" where
  "update_two_step v s =
     bind_err
       (if selected_two_step_digit s = ''first_digit'' then bump_digit 0 v s
        else if selected_two_step_digit s = ''second_digit'' then bump_digit 1 v s
        else if selected_two_step_digit s = ''third_digit'' then bump_digit 2 v s
        else if selected_two_step_digit s = ''forth_digit'' then bump_digit 3 v s
        else if selected_two_step_digit s = ''rmp_digit'' then Inr s
        else Inr (print [Str ''BAD INDEX ON 2 STEP SELECTOR''] s))
       (\<lambda>s'. Inr (update s'))"

text \<open>
  The number the four digits spell, as both branches of \<^verbatim>\<open>move_two_step\<close> compute it:
  \<^verbatim>\<open>d[0]*1000 + d[1]*100 + d[2]*10 + d[3]\<close>.
\<close>

definition digits_number :: "int list \<Rightarrow> error + int" where
  "digits_number ds =
     bind_err (getitem ds 0) (\<lambda>d0.
     bind_err (getitem ds 1) (\<lambda>d1.
     bind_err (getitem ds 2) (\<lambda>d2.
     bind_err (getitem ds 3) (\<lambda>d3.
     Inr (d0 * 1000 + d1 * 100 + d2 * 10 + d3)))))"

text \<open>\<^verbatim>\<open>move_two_step()\<close>\<close>

definition move_two_step :: "Variable_Section \<Rightarrow> error + Variable_Section" where
  "move_two_step s =
     bind_err
       (if selected_two_step_digit s = ''rmp_digit'' then
          (if two_step_bound s = ''Upper'' then
             bind_err (digits_number (two_step_current_digit_values s)) (\<lambda>n.
             bind_err (setitem (new_two_step_bounds s) 0 n) (\<lambda>bs.
             Inr (s\<lparr> new_two_step_bounds := bs,
                      two_step_bound := ''Lower'',
                      two_step_current_digit_values := [0, 0, 0, 0],
                      selected_two_step_digit := ''first_digit'' \<rparr>)))
           else if two_step_bound s = ''Lower'' then
             bind_err (digits_number (two_step_current_digit_values s)) (\<lambda>n.
             bind_err (setitem (new_two_step_bounds s) 1 n) (\<lambda>bs.
             let s1 = s\<lparr>new_two_step_bounds := bs\<rparr> in
             bind_err (getitem bs 1) (\<lambda>lo.
             bind_err (getitem bs 0) (\<lambda>hi.
             if lo \<ge> hi then Inr (s1\<lparr>two_step_bad_input := True\<rparr>)
             else
               (let s2 = change_widget ''Competition'' s1
                in Inr (print [Str ''TWO STEP BOUNDS ARE: '', IntList (new_two_step_bounds s2)] s2))))))
           else Inr (print [Str ''ERROR BAD self.two_step_bound''] s))
        else
          bind_err (index_of (two_step_digit_list s) (selected_two_step_digit s)) (\<lambda>i.
          bind_err (getitem (two_step_digit_list s) (i + 1)) (\<lambda>d.
          Inr (s\<lparr>selected_two_step_digit := d\<rparr>))))
       (\<lambda>s'. Inr (update s'))"

text \<open>
  The inputs of a two-step session, and a run of them: the first exception ends
  the run, as it would end the caller.
\<close>

datatype two_step_input = Adjust int | Advance

fun two_step_step :: "two_step_input \<Rightarrow> Variable_Section \<Rightarrow> error + Variable_Section" where
  "two_step_step (Adjust v) s = update_two_step v s"
| "two_step_step Advance s = move_two_step s"

fun two_step_run :: "two_step_input list \<Rightarrow> Variable_Section \<Rightarrow> error + Variable_Section" where
  "two_step_run [] s = Inr s"
| "two_step_run (i # is) s = bind_err (two_step_step i s) (two_step_run is)"

text \<open>
  What holds of the session fields in every state the class can be in: the
  constructor and \<^verbatim>\<open>change_widget\<close> establish it, the two inputs keep it.
\<close>

definition session_inv :: "Variable_Section \<Rightarrow> bool" where
  "session_inv s \<longleftrightarrow>
     length (new_two_step_bounds s) = 2 \<and>
     length (two_step_current_digit_values s) = 4 \<and>
     list_all (\<lambda>d. 0 \<le> d \<and> d \<le> 9) (two_step_current_digit_values s) \<and>
     two_step_digit_list s =
       [''first_digit'', ''second_digit'', ''third_digit'', ''forth_digit'', ''rmp_digit''] \<and>
     selected_two_step_digit s \<in> set (two_step_digit_list s) \<and>
     (two_step_bound s = ''Upper'' \<or> two_step_bound s = ''Lower'')"


text \<open>
  The key presses that enter four digits and confirm them: each digit is raised from 0
  with \<^verbatim>\<open>update_two_step(1)\<close>, then \<^verbatim>\<open>move_two_step()\<close> goes to the next
  position; the last \<^verbatim>\<open>move_two_step()\<close> is pressed on the RPM label.
\<close>

definition enter_digits :: "int list \<Rightarrow> two_step_input list" where
  "enter_digits ds = concat (map (\<lambda>d. replicate (nat d) (Adjust 1) @ [Advance]) ds) @ [Advance]"

section \<open>The gauges: Temp_Gauge, Tachometer, Fuel_Gauge, Speedometer\<close>

text \<open>
  The four gauge classes hold the same two fields, and their \<^verbatim>\<open>add_to_value\<close> and
  \<^verbatim>\<open>update_value\<close> have the same bodies, so one record and one pair of functions
  stand for all four. The classes differ in the default of \<^verbatim>\<open>max_value\<close> and in
  \<^verbatim>\<open>paintEvent\<close>. The field \<^verbatim>\<open>self.value\<close> is \<open>gauge_value\<close> here.
\<close>

record gauge = QWidget +
  gauge_value :: int
  max_value :: int

text \<open>
  The body shared by the four constructors. The first argument is what
  \<^verbatim>\<open>QFontDatabase.addApplicationFont\<close> returned. No statement of the constructors
  raises or tests \<^verbatim>\<open>max_value\<close>.
\<close>

definition gauge_init :: "int \<Rightarrow> int \<Rightarrow> error + gauge" where
  "gauge_init font_id m =
     Inr \<lparr> console = (if font_id < 0 then [[Str ''ERROR'']] else []),
           redraws = 0,
           gauge_value = 0,
           max_value = m \<rparr>"

text \<open>
  The constructors, with the default each class gives to \<^verbatim>\<open>max_value\<close> when the
  caller leaves it out (\<open>None\<close>).
\<close>

definition Temp_Gauge_init :: "int \<Rightarrow> int option \<Rightarrow> error + gauge" where
  "Temp_Gauge_init font_id m = gauge_init font_id (case m of None \<Rightarrow> 300 | Some v \<Rightarrow> v)"

definition Tachometer_init :: "int \<Rightarrow> int option \<Rightarrow> error + gauge" where
  "Tachometer_init font_id m = gauge_init font_id (case m of None \<Rightarrow> 5000 | Some v \<Rightarrow> v)"

definition Fuel_Gauge_init :: "int \<Rightarrow> int option \<Rightarrow> error + gauge" where
  "Fuel_Gauge_init font_id m = gauge_init font_id (case m of None \<Rightarrow> 100 | Some v \<Rightarrow> v)"

definition Speedometer_init :: "int \<Rightarrow> int option \<Rightarrow> error + gauge" where
  "Speedometer_init font_id m = gauge_init font_id (case m of None \<Rightarrow> 200 | Some v \<Rightarrow> v)"

text \<open>
  \<^verbatim>\<open>a % b\<close> on Python integers: the result has the sign of \<open>b\<close>, as \<open>mod\<close> on
  \<open>int\<close> has, and \<open>b = 0\<close> raises.
\<close>

definition py_mod :: "int \<Rightarrow> int \<Rightarrow> error + int" where
  "py_mod a b = (if b = 0 then Inl ZeroDivisionError else Inr (a mod b))"

text \<open>\<^verbatim>\<open>add_to_value(change)\<close>: \<^verbatim>\<open>self.value = (self.value + change) % (self.max_value + 1)\<close>.\<close>

definition add_to_value :: "int \<Rightarrow> gauge \<Rightarrow> error + gauge" where
  "add_to_value change g =
     bind_err (py_mod (gauge_value g + change) (max_value g + 1)) (\<lambda>v.
     Inr (update (g\<lparr>gauge_value := v\<rparr>)))"

text \<open>\<^verbatim>\<open>update_value(new_value)\<close>: \<^verbatim>\<open>self.value = new_value % (self.max_value + 1)\<close>.\<close>

definition update_value :: "int \<Rightarrow> gauge \<Rightarrow> error + gauge" where
  "update_value new_value g =
     bind_err (py_mod new_value (max_value g + 1)) (\<lambda>v.
     Inr (update (g\<lparr>gauge_value := v\<rparr>)))"

text \<open>The calls a host makes on a gauge, and a run of them from a freshly built gauge.\<close>

datatype gauge_call = Add_to_value int | Update_value int

fun gauge_step :: "gauge_call \<Rightarrow> gauge \<Rightarrow> error + gauge" where
  "gauge_step (Add_to_value d) g = add_to_value d g"
| "gauge_step (Update_value v) g = update_value v g"

fun gauge_run :: "gauge_call list \<Rightarrow> gauge \<Rightarrow> error + gauge" where
  "gauge_run [] g = Inr g"
| "gauge_run (c # cs) g = bind_err (gauge_step c g) (gauge_run cs)"

subsection \<open>What paintEvent computes from the value\<close>

text \<open>
  Of each \<^verbatim>\<open>paintEvent\<close> the parts that read \<^verbatim>\<open>self.value\<close> or
  \<^verbatim>\<open>self.max_value\<close> are embedded: the pen of the value fill, the span of the
  tachometer's arc fill, and the tick labels. The geometry, which depends on the size of
  the widget only, is left out.
\<close>

datatype color = Qt_green | Qt_yellow | Qt_red | QColor int int int

text \<open>
  The brush of a pen: a linear gradient with its colour stops in the order of the
  \<^verbatim>\<open>setColorAt\<close> calls, or one colour.
\<close>

datatype brush = QLinearGradient "(pyfloat \<times> color) list" | Solid color

text \<open>\<^verbatim>\<open>Temp_Gauge.paintEvent\<close>, the gradient of the value indicator.\<close>

definition Temp_Gauge_fill_pen :: "gauge \<Rightarrow> error + brush" where
  "Temp_Gauge_fill_pen g =
     Inr (QLinearGradient
       [(Finite 1, Qt_green), (float_lit (2 / 10), Qt_yellow), (Finite 0, Qt_red)])"

text \<open>\<^verbatim>\<open>Tachometer.paintEvent\<close>, the gradient of the value indicator.\<close>

definition Tachometer_fill_pen :: "gauge \<Rightarrow> error + brush" where
  "Tachometer_fill_pen g =
     Inr (QLinearGradient
       [(Finite 0, Qt_green), (float_lit (8 / 10), Qt_yellow), (Finite 1, Qt_red)])"

text \<open>
  \<^verbatim>\<open>Fuel_Gauge.paintEvent\<close>, the pen of the value indicator: the chain
  \<^verbatim>\<open>if self.value >= self.max_value*.4\<close>, \<^verbatim>\<open>elif self.value >= self.max_value*.2\<close>,
  \<^verbatim>\<open>elif self.value >= 0\<close>, \<^verbatim>\<open>else\<close>.
\<close>

definition Fuel_Gauge_fill_pen :: "gauge \<Rightarrow> error + brush" where
  "Fuel_Gauge_fill_pen g =
     bind_err (int_mul_float (max_value g) (float_lit (4 / 10))) (\<lambda>t4.
       if int_ge_float (gauge_value g) t4 then Inr (Solid (QColor 0 255 0))
       else
         bind_err (int_mul_float (max_value g) (float_lit (2 / 10))) (\<lambda>t2.
           if int_ge_float (gauge_value g) t2 then Inr (Solid (QColor 255 255 0))
           else if 0 \<le> gauge_value g then Inr (Solid (QColor 255 0 0))
           else Inr (Solid (QColor 255 0 255))))"

text \<open>
  \<^verbatim>\<open>Tachometer.paintEvent\<close>:
  \<^verbatim>\<open>arc_value = -1 * ((self.value / (self.max_value*.5)) * 90)\<close>.
\<close>

definition Tachometer_arc_value :: "gauge \<Rightarrow> error + pyfloat" where
  "Tachometer_arc_value g =
     bind_err (int_mul_float (max_value g) (float_lit (5 / 10))) (\<lambda>h.
     bind_err (int_div_float (gauge_value g) h) (\<lambda>q.
     bind_err (float_mul_int q 90) (\<lambda>p.
     int_mul_float (- 1) p)))"

text \<open>A Python number handed to Qt.\<close>

datatype pynum = PyInt int | PyFloat pyfloat

text \<open>
  The span that the arc fill hands to \<^verbatim>\<open>drawArc\<close>, in sixteenths of a degree:
  \<^verbatim>\<open>-90 * 16\<close> when \<^verbatim>\<open>arc_value < -90\<close>, else \<^verbatim>\<open>arc_value * 16\<close>.
\<close>

definition Tachometer_arc_fill :: "gauge \<Rightarrow> error + pynum" where
  "Tachometer_arc_fill g =
     bind_err (Tachometer_arc_value g) (\<lambda>a.
       if float_less_int a (- 90) then Inr (PyInt (- 90 * 16))
       else bind_err (float_mul_int a 16) (\<lambda>s. Inr (PyFloat s)))"

text \<open>
  A tick label \<^verbatim>\<open>int(self.max_value*k/5)\<close>: the integer product, the true division
  by 5, and \<^verbatim>\<open>int\<close>.
\<close>

definition tick_label :: "int \<Rightarrow> int \<Rightarrow> error + int" where
  "tick_label m k = bind_err (int_true_div (m * k) 5) int_of_float"

text \<open>
  The numbers on the labelled ticks, in the order \<^verbatim>\<open>Temp_Gauge.paintEvent\<close> and
  \<^verbatim>\<open>Tachometer.paintEvent\<close> both compute them: the maximum, four fifths, three
  fifths, two fifths, one fifth, and 0.
\<close>

definition tick_labels :: "gauge \<Rightarrow> error + int list" where
  "tick_labels g =
     bind_err (tick_label (max_value g) 4) (\<lambda>l4.
     bind_err (tick_label (max_value g) 3) (\<lambda>l3.
     bind_err (tick_label (max_value g) 2) (\<lambda>l2.
     bind_err (tick_label (max_value g) 1) (\<lambda>l1.
     Inr [max_value g, l4, l3, l2, l1, 0]))))"

text \<open>
  Both \<^verbatim>\<open>paintEvent\<close>s draw the value fill before the ticks, so the labels appear
  only when the fill did not raise. In \<^verbatim>\<open>Temp_Gauge.paintEvent\<close> the fill is
  \<^verbatim>\<open>length = (self.value / (self.max_value*.5)) * size_factor\<close>: the quotient can
  raise, the product with \<^verbatim>\<open>size_factor\<close>, a float, cannot. In
  \<^verbatim>\<open>Tachometer.paintEvent\<close> it is the arc fill; the line fill after it converts the
  same two integers and divides by the same \<^verbatim>\<open>self.max_value*.5\<close> again.
\<close>

definition Temp_Gauge_fill_ratio :: "gauge \<Rightarrow> error + pyfloat" where
  "Temp_Gauge_fill_ratio g =
     bind_err (int_mul_float (max_value g) (float_lit (5 / 10))) (\<lambda>h.
     int_div_float (gauge_value g) h)"

definition Temp_Gauge_tick_labels :: "gauge \<Rightarrow> error + int list" where
  "Temp_Gauge_tick_labels g = bind_err (Temp_Gauge_fill_ratio g) (\<lambda>r. tick_labels g)"

definition Tachometer_tick_labels :: "gauge \<Rightarrow> error + int list" where
  "Tachometer_tick_labels g = bind_err (Tachometer_arc_fill g) (\<lambda>s. tick_labels g)"

section \<open>Properties of the two-step entry\<close>

subsection \<open>The operations on a well-formed session\<close>

lemma getitem_ok: "i < length xs \<Longrightarrow> getitem xs i = Inr (xs ! i)"
  by (simp add: getitem_def)

lemma setitem_ok: "i < length xs \<Longrightarrow> setitem xs i v = Inr (xs[i := v])"
  by (simp add: setitem_def)

lemma bind_err_Inr: "bind_err (Inr x) f = f x"
  by (simp add: bind_err_def)

lemma bind_err_Inl: "bind_err (Inl e) f = Inl e"
  by (simp add: bind_err_def)

lemma digits_number_ok:
  "length ds = 4 \<Longrightarrow> digits_number ds = Inr (ds ! 0 * 1000 + ds ! 1 * 100 + ds ! 2 * 10 + ds ! 3)"
  by (simp add: digits_number_def getitem_ok bind_err_Inr)

lemma session_inv_init: "session_inv (Variable_Section_init f)"
  by (simp add: session_inv_def Variable_Section_init_def)

lemma session_inv_change_widget:
  "session_inv s \<Longrightarrow> session_inv (change_widget w s)"
  by (auto simp add: session_inv_def change_widget_def update_def Let_def)

lemma move_upper:
  assumes "session_inv s" "selected_two_step_digit s = ''rmp_digit''" "two_step_bound s = ''Upper''"
  shows "move_two_step s = Inr (s\<lparr> new_two_step_bounds := (new_two_step_bounds s)[0 := 
           two_step_current_digit_values s ! 0 * 1000 + two_step_current_digit_values s ! 1 * 100
           + two_step_current_digit_values s ! 2 * 10 + two_step_current_digit_values s ! 3],
                      two_step_bound := ''Lower'',
                      two_step_current_digit_values := [0, 0, 0, 0],
                      selected_two_step_digit := ''first_digit'',
                      redraws := Suc (redraws s) \<rparr>)"
  using assms
  by (simp add: move_two_step_def session_inv_def digits_number_ok setitem_ok bind_err_Inr update_def)

lemma cursor_cases:
  assumes "session_inv s"
  obtains i where "i < 4" "selected_two_step_digit s = two_step_digit_list s ! i"
  | "selected_two_step_digit s = ''rmp_digit''"
proof -
  have L: "two_step_digit_list s =
      [''first_digit'', ''second_digit'', ''third_digit'', ''forth_digit'', ''rmp_digit'']"
    and M: "selected_two_step_digit s \<in> set (two_step_digit_list s)"
    using assms by (auto simp add: session_inv_def)
  from M consider "selected_two_step_digit s = ''first_digit''"
    | "selected_two_step_digit s = ''second_digit''"
    | "selected_two_step_digit s = ''third_digit''"
    | "selected_two_step_digit s = ''forth_digit''"
    | "selected_two_step_digit s = ''rmp_digit''"
    unfolding L by auto
  then show thesis
  proof cases
    case 1
    then have "selected_two_step_digit s = two_step_digit_list s ! 0" by (simp add: L)
    then show thesis using that(1) [of 0] by simp
  next
    case 2
    then have "selected_two_step_digit s = two_step_digit_list s ! 1" by (simp add: L)
    then show thesis using that(1) [of 1] by simp
  next
    case 3
    then have "selected_two_step_digit s = two_step_digit_list s ! 2" by (simp add: L)
    then show thesis using that(1) [of 2] by simp
  next
    case 4
    then have "selected_two_step_digit s = two_step_digit_list s ! 3" by (simp add: L)
    then show thesis using that(1) [of 3] by simp
  next
    case 5
    then show thesis by (rule that(2))
  qed
qed

lemma update_two_step_digit:
  assumes "session_inv s" "i < 4" "selected_two_step_digit s = two_step_digit_list s ! i"
  shows "update_two_step v s =
           Inr (s\<lparr> two_step_current_digit_values :=
                      (two_step_current_digit_values s)[i := (two_step_current_digit_values s ! i + v) mod 10],
                    redraws := Suc (redraws s) \<rparr>)"
proof -
  from \<open>i < 4\<close> consider "i = 0" | "i = 1" | "i = 2" | "i = 3" by linarith
  then show ?thesis
    using assms
    by cases (simp_all add: update_two_step_def bump_digit_def session_inv_def getitem_ok
        setitem_ok bind_err_Inr update_def)
qed

lemma update_two_step_confirm:
  assumes "selected_two_step_digit s = ''rmp_digit''"
  shows "update_two_step v s = Inr (s\<lparr>redraws := Suc (redraws s)\<rparr>)"
  using assms by (simp add: update_two_step_def bind_err_Inr update_def)

lemma move_cursor:
  assumes "session_inv s" "i < 4" "selected_two_step_digit s = two_step_digit_list s ! i"
  shows "move_two_step s =
           Inr (s\<lparr> selected_two_step_digit := two_step_digit_list s ! Suc i,
                    redraws := Suc (redraws s) \<rparr>)"
proof -
  from \<open>i < 4\<close> consider "i = 0" | "i = 1" | "i = 2" | "i = 3" by linarith
  then show ?thesis
    using assms
    by cases (simp_all add: move_two_step_def session_inv_def getitem_ok bind_err_Inr update_def)
qed

lemma move_lower_bad:
  assumes "session_inv s" "selected_two_step_digit s = ''rmp_digit''" "two_step_bound s = ''Lower''"
    and "n = two_step_current_digit_values s ! 0 * 1000 + two_step_current_digit_values s ! 1 * 100
           + two_step_current_digit_values s ! 2 * 10 + two_step_current_digit_values s ! 3"
    and "n \<ge> new_two_step_bounds s ! 0"
  shows "move_two_step s =
           Inr (s\<lparr> new_two_step_bounds := (new_two_step_bounds s)[1 := n],
                    two_step_bad_input := True,
                    redraws := Suc (redraws s) \<rparr>)"
  using assms
  by (simp add: move_two_step_def session_inv_def digits_number_ok setitem_ok getitem_ok
      bind_err_Inr update_def)

lemma move_lower_commit:
  assumes "session_inv s" "selected_two_step_digit s = ''rmp_digit''" "two_step_bound s = ''Lower''"
    and "n = two_step_current_digit_values s ! 0 * 1000 + two_step_current_digit_values s ! 1 * 100
           + two_step_current_digit_values s ! 2 * 10 + two_step_current_digit_values s ! 3"
    and "n < new_two_step_bounds s ! 0"
  shows "move_two_step s =
           Inr (s\<lparr> new_two_step_bounds := (new_two_step_bounds s)[1 := n],
                    current_widget := ''Competition'',
                    console := console s @
                      [[Str ''TWO STEP BOUNDS ARE: '', IntList ((new_two_step_bounds s)[1 := n])]],
                    redraws := Suc (Suc (redraws s)) \<rparr>)"
  using assms
  by (simp add: move_two_step_def session_inv_def digits_number_ok setitem_ok getitem_ok
      bind_err_Inr update_def change_widget_def print_def Let_def)

lemma update_two_step_total:
  assumes "session_inv s"
  shows "\<exists>s'. update_two_step v s = Inr s' \<and> session_inv s' \<and>
               new_two_step_bounds s' = new_two_step_bounds s \<and>
               two_step_bound s' = two_step_bound s \<and>
               selected_two_step_digit s' = selected_two_step_digit s"
proof (rule cursor_cases [OF assms])
  fix i assume i: "i < 4" "selected_two_step_digit s = two_step_digit_list s ! i"
  have "(d + v) mod 10 \<le> 9" for d :: int
    by (smt (verit) pos_mod_bound)
  then show ?thesis
    using assms \<open>i < 4\<close>
    by (auto simp add: update_two_step_digit [OF assms i] session_inv_def list_all_length nth_list_update)
next
  assume "selected_two_step_digit s = ''rmp_digit''"
  then show ?thesis
    using assms by (simp add: update_two_step_confirm session_inv_def)
qed

lemma move_two_step_total:
  assumes "session_inv s"
  shows "\<exists>s'. move_two_step s = Inr s' \<and> session_inv s'"
proof (rule cursor_cases [OF assms])
  fix i assume i: "i < 4" "selected_two_step_digit s = two_step_digit_list s ! i"
  from \<open>i < 4\<close> consider "i = 0" | "i = 1" | "i = 2" | "i = 3" by linarith
  then show ?thesis
    using assms i
    by cases (auto simp add: move_cursor [OF assms i] session_inv_def)
next
  assume c: "selected_two_step_digit s = ''rmp_digit''"
  from assms consider "two_step_bound s = ''Upper''" | "two_step_bound s = ''Lower''"
    by (auto simp: session_inv_def)
  then show ?thesis
  proof cases
    case 1
    then show ?thesis
      using assms c by (simp add: move_upper [OF assms c 1] session_inv_def)
  next
    case 2
    define n where "n = two_step_current_digit_values s ! 0 * 1000 + two_step_current_digit_values s ! 1 * 100
           + two_step_current_digit_values s ! 2 * 10 + two_step_current_digit_values s ! 3"
    show ?thesis
    proof (cases "n < new_two_step_bounds s ! 0")
      case True
      then show ?thesis
        using assms c 2 by (simp add: move_lower_commit [OF assms c 2 n_def] session_inv_def)
    next
      case False
      then show ?thesis
        using assms c 2 by (simp add: move_lower_bad [OF assms c 2 n_def] session_inv_def)
    qed
  qed
qed

lemma two_step_run_total:
  "session_inv s \<Longrightarrow> \<exists>s'. two_step_run ins s = Inr s' \<and> session_inv s'"
proof (induction ins arbitrary: s)
  case Nil
  then show ?case by simp
next
  case (Cons i ins)
  have "\<exists>s1. two_step_step i s = Inr s1 \<and> session_inv s1"
    using update_two_step_total [OF Cons.prems] move_two_step_total [OF Cons.prems]
    by (cases i) auto
  then obtain s1 where "two_step_step i s = Inr s1" "session_inv s1" by blast
  then show ?case
    using Cons.IH [of s1] by (simp add: bind_err_Inr)
qed

lemma adjust_times:
  assumes "session_inv s" "i < 4" "selected_two_step_digit s = two_step_digit_list s ! i"
  shows "two_step_run (replicate n (Adjust v)) s =
           Inr (s\<lparr> two_step_current_digit_values :=
                      (two_step_current_digit_values s)
                        [i := (if n = 0 then two_step_current_digit_values s ! i
                               else (two_step_current_digit_values s ! i + int n * v) mod 10)],
                    redraws := redraws s + n \<rparr>)"
  using assms
proof (induction n arbitrary: s)
  case 0
  then show ?case by simp
next
  case (Suc n)
  let ?s1 = "s\<lparr> two_step_current_digit_values :=
                      (two_step_current_digit_values s)[i := (two_step_current_digit_values s ! i + v) mod 10],
                    redraws := Suc (redraws s) \<rparr>"
  have step: "update_two_step v s = Inr ?s1"
    by (rule update_two_step_digit [OF Suc.prems])
  have inv1: "session_inv ?s1"
    using update_two_step_total [OF Suc.prems(1), of v] step by simp
  have sel1: "selected_two_step_digit ?s1 = two_step_digit_list ?s1 ! i"
    using Suc.prems(3) by simp
  have len: "i < length (two_step_current_digit_values s)"
    using Suc.prems(1,2) by (simp add: session_inv_def)
  have arith: "((d + v) mod 10 + int n * v) mod 10 = (d + (1 + int n) * v) mod 10" for d
  proof -
    have "((d + v) mod 10 + int n * v) mod 10 = (d + v + int n * v) mod 10"
      by (rule mod_add_left_eq)
    also have "d + v + int n * v = d + (1 + int n) * v"
      by (simp add: algebra_simps)
    finally show ?thesis .
  qed
  show ?case
    using Suc.IH [OF inv1 \<open>i < 4\<close> sel1] len
    by (simp add: step bind_err_Inr arith)
qed

lemma list2_update1: "length xs = 2 \<Longrightarrow> xs[1 := v] = [xs ! 0, v]"
  by (cases xs; cases "tl xs") auto




lemma adjust_times_confirm:
  "selected_two_step_digit s = ''rmp_digit'' \<Longrightarrow>
   two_step_run (replicate n (Adjust v)) s = Inr (s\<lparr>redraws := redraws s + n\<rparr>)"
proof (induction n arbitrary: s)
  case 0
  then show ?case by simp
next
  case (Suc n)
  show ?case
    using Suc.IH [of "s\<lparr>redraws := Suc (redraws s)\<rparr>"] Suc.prems
    by (simp add: update_two_step_confirm bind_err_Inr)
qed

lemma two_step_step_frame:
  assumes "session_inv s"
  shows "\<exists>s'. two_step_step i s = Inr s' \<and> session_inv s' \<and>
           (two_step_bound s = ''Lower'' \<longrightarrow>
              two_step_bound s' = ''Lower'' \<and> new_two_step_bounds s' ! 0 = new_two_step_bounds s ! 0) \<and>
           (new_two_step_bounds s' ! 0 \<noteq> new_two_step_bounds s ! 0 \<longrightarrow>
              i = Advance \<and> selected_two_step_digit s = ''rmp_digit'' \<and> two_step_bound s = ''Upper'')"
proof (cases i)
  case (Adjust v)
  then show ?thesis
    using update_two_step_total [OF assms, of v] by auto
next
  case Advance
  have len: "length (new_two_step_bounds s) = 2"
    using assms by (simp add: session_inv_def)
  show ?thesis
  proof (rule cursor_cases [OF assms])
    fix j assume j: "j < 4" "selected_two_step_digit s = two_step_digit_list s ! j"
    show ?thesis
      using move_two_step_total [OF assms] Advance
      by (auto simp add: move_cursor [OF assms j])
  next
    assume c: "selected_two_step_digit s = ''rmp_digit''"
    from assms consider "two_step_bound s = ''Upper''" | "two_step_bound s = ''Lower''"
      by (auto simp: session_inv_def)
    then show ?thesis
    proof cases
      case 1
      then show ?thesis
        using move_two_step_total [OF assms] Advance c by auto
    next
      case 2
      define n where "n = two_step_current_digit_values s ! 0 * 1000 + two_step_current_digit_values s ! 1 * 100
           + two_step_current_digit_values s ! 2 * 10 + two_step_current_digit_values s ! 3"
      show ?thesis
      proof (cases "n < new_two_step_bounds s ! 0")
        case True
        show ?thesis
          using move_two_step_total [OF assms] Advance 2 len
          by (auto simp add: move_lower_commit [OF assms c 2 n_def True])
      next
        case False
        then have ge: "n \<ge> new_two_step_bounds s ! 0" by simp
        show ?thesis
          using move_two_step_total [OF assms] Advance 2 len
          by (auto simp add: move_lower_bad [OF assms c 2 n_def ge])
      qed
    qed
  qed
qed

subsection \<open>Confirming the upper bound\<close>

text \<open>
  C7. In the Upper phase with the cursor on the RPM label, \<^verbatim>\<open>move_two_step\<close> stores
  the number the four digits spell as the upper bound, sets the digits back to 0, enters
  the Lower phase, puts the cursor on the first digit and prints nothing: the console and
  the current widget stay as they were.
\<close>

theorem upper_confirm_snapshots:
  assumes "session_inv s"
    and "selected_two_step_digit s = ''rmp_digit''"
    and "two_step_bound s = ''Upper''"
  shows "\<exists>s'. move_two_step s = Inr s' \<and>
           new_two_step_bounds s' ! 0 =
             two_step_current_digit_values s ! 0 * 1000 + two_step_current_digit_values s ! 1 * 100
             + two_step_current_digit_values s ! 2 * 10 + two_step_current_digit_values s ! 3 \<and>
           two_step_current_digit_values s' = [0, 0, 0, 0] \<and>
           two_step_bound s' = ''Lower'' \<and>
           selected_two_step_digit s' = ''first_digit'' \<and>
           console s' = console s \<and>
           current_widget s' = current_widget s \<and>
           two_step_bad_input s' = two_step_bad_input s"
  using assms by (simp add: move_upper [OF assms] session_inv_def)

theorem upper_confirm_snapshots_witness:
  "session_inv ((Variable_Section_init 0)\<lparr>selected_two_step_digit := ''rmp_digit'',
       two_step_current_digit_values := [4, 2, 0, 7]\<rparr>) \<and>
   (\<exists>s'. move_two_step ((Variable_Section_init 0)\<lparr>selected_two_step_digit := ''rmp_digit'',
       two_step_current_digit_values := [4, 2, 0, 7]\<rparr>) = Inr s' \<and>
      new_two_step_bounds s' ! 0 = 4207 \<and>
      two_step_current_digit_values s' = [0, 0, 0, 0] \<and>
      two_step_bound s' = ''Lower'' \<and>
      selected_two_step_digit s' = ''first_digit'' \<and>
      console s' = [])"
  using upper_confirm_snapshots [of "(Variable_Section_init 0)\<lparr>selected_two_step_digit := ''rmp_digit'',
       two_step_current_digit_values := [4, 2, 0, 7]\<rparr>"]
  by (auto simp add: session_inv_def Variable_Section_init_def)

subsection \<open>A rejected pair\<close>



subsection \<open>Confirming the lower bound\<close>

text \<open>
  C1 asks that, in the Lower phase with the cursor on the RPM label,
  \<^verbatim>\<open>move_two_step\<close> stores the number the digits spell as the lower bound and commits
  exactly when it is below the upper bound, and that the digits 0,1,0,0 followed by
  0,0,5,0 commit the pair (1000, 50). The run below enters these digits key by key into
  a fresh Two-Step session: the pair that is printed is (100, 50), since 0,1,0,0 spells
  100.
\<close>

theorem commit_example_counterexample:
  "map_sum id console
     (two_step_run (enter_digits [0, 1, 0, 0] @ enter_digits [0, 0, 5, 0])
        (change_widget ''Two-Step'' (Variable_Section_init 0)))
     = Inr [[Str ''TWO STEP BOUNDS ARE: '', IntList [100, 50]]] \<and>
   map_sum id console
     (two_step_run (enter_digits [0, 1, 0, 0] @ enter_digits [0, 0, 5, 0])
        (change_widget ''Two-Step'' (Variable_Section_init 0)))
     \<noteq> Inr [[Str ''TWO STEP BOUNDS ARE: '', IntList [1000, 50]]]"
  by (simp add: enter_digits_def Variable_Section_init_def change_widget_def update_def
      bind_err_Inr bind_err_Inl update_two_step_def move_two_step_def bump_digit_def digits_number_def
      getitem_def setitem_def print_def Let_def numeral_eq_Suc)

text \<open>
  C1, amended. In the Lower phase with the cursor on the RPM label,
  \<^verbatim>\<open>move_two_step\<close> stores the number \<open>lo\<close> the digits spell beside the upper bound
  \<open>hi\<close>. When \<open>lo < hi\<close> it leaves for the Competition widget and prints the pair
  \<open>[hi, lo]\<close>; otherwise it prints nothing, stays, and raises
  \<^verbatim>\<open>two_step_bad_input\<close>. Entering 0,1,0,0 and then 0,0,5,0 commits and prints
  (100, 50).
\<close>

theorem lower_confirm_validates:
  assumes "session_inv s"
    and "selected_two_step_digit s = ''rmp_digit''"
    and "two_step_bound s = ''Lower''"
    and "lo = two_step_current_digit_values s ! 0 * 1000 + two_step_current_digit_values s ! 1 * 100
           + two_step_current_digit_values s ! 2 * 10 + two_step_current_digit_values s ! 3"
    and "hi = new_two_step_bounds s ! 0"
  shows "(\<exists>s'. move_two_step s = Inr s' \<and>
            new_two_step_bounds s' = [hi, lo] \<and>
            (if lo < hi
             then current_widget s' = ''Competition'' \<and>
                  console s' = console s @ [[Str ''TWO STEP BOUNDS ARE: '', IntList [hi, lo]]] \<and>
                  two_step_bad_input s' = two_step_bad_input s
             else current_widget s' = current_widget s \<and>
                  console s' = console s \<and>
                  two_step_bad_input s')) \<and>
         map_sum id console
           (two_step_run (enter_digits [0, 1, 0, 0] @ enter_digits [0, 0, 5, 0])
              (change_widget ''Two-Step'' (Variable_Section_init 0)))
           = Inr [[Str ''TWO STEP BOUNDS ARE: '', IntList [100, 50]]]"
proof
  have len: "length (new_two_step_bounds s) = 2"
    using assms(1) by (simp add: session_inv_def)
  have upd: "(new_two_step_bounds s)[1 := lo] = [hi, lo]"
    using list2_update1 [OF len] assms(5) by simp
  show "\<exists>s'. move_two_step s = Inr s' \<and>
            new_two_step_bounds s' = [hi, lo] \<and>
            (if lo < hi
             then current_widget s' = ''Competition'' \<and>
                  console s' = console s @ [[Str ''TWO STEP BOUNDS ARE: '', IntList [hi, lo]]] \<and>
                  two_step_bad_input s' = two_step_bad_input s
             else current_widget s' = current_widget s \<and>
                  console s' = console s \<and>
                  two_step_bad_input s')"
  proof (cases "lo < hi")
    case True
    then have lt: "lo < new_two_step_bounds s ! 0" using assms(5) by simp
    show ?thesis
      using True upd by (simp add: move_lower_commit [OF assms(1-4) lt])
  next
    case False
    then have ge: "lo \<ge> new_two_step_bounds s ! 0" using assms(5) by simp
    show ?thesis
      using False upd by (simp add: move_lower_bad [OF assms(1-4) ge])
  qed
next
  show "map_sum id console
           (two_step_run (enter_digits [0, 1, 0, 0] @ enter_digits [0, 0, 5, 0])
              (change_widget ''Two-Step'' (Variable_Section_init 0)))
           = Inr [[Str ''TWO STEP BOUNDS ARE: '', IntList [100, 50]]]"
    by (simp add: enter_digits_def Variable_Section_init_def change_widget_def update_def
      bind_err_Inr bind_err_Inl update_two_step_def move_two_step_def bump_digit_def digits_number_def
      getitem_def setitem_def print_def Let_def numeral_eq_Suc)
qed

theorem lower_confirm_validates_witness:
  "session_inv ((Variable_Section_init 0)\<lparr>new_two_step_bounds := [1000, 0],
       selected_two_step_digit := ''rmp_digit'', two_step_bound := ''Lower'',
       two_step_current_digit_values := [0, 0, 5, 0]\<rparr>) \<and>
   (\<exists>s'. move_two_step ((Variable_Section_init 0)\<lparr>new_two_step_bounds := [1000, 0],
       selected_two_step_digit := ''rmp_digit'', two_step_bound := ''Lower'',
       two_step_current_digit_values := [0, 0, 5, 0]\<rparr>) = Inr s' \<and>
      new_two_step_bounds s' = [1000, 50] \<and>
      current_widget s' = ''Competition'' \<and>
      console s' = [[Str ''TWO STEP BOUNDS ARE: '', IntList [1000, 50]]])"
proof -
  let ?s = "(Variable_Section_init 0)\<lparr>new_two_step_bounds := [1000, 0],
       selected_two_step_digit := ''rmp_digit'', two_step_bound := ''Lower'',
       two_step_current_digit_values := [0, 0, 5, 0]\<rparr>"
  have inv: "session_inv ?s"
    by (simp add: session_inv_def Variable_Section_init_def)
  have c: "selected_two_step_digit ?s = ''rmp_digit''" and b: "two_step_bound ?s = ''Lower''"
    by simp_all
  have lo: "(50::int) = two_step_current_digit_values ?s ! 0 * 1000 + two_step_current_digit_values ?s ! 1 * 100
           + two_step_current_digit_values ?s ! 2 * 10 + two_step_current_digit_values ?s ! 3"
    and hi: "(1000::int) = new_two_step_bounds ?s ! 0"
    by simp_all
  have con: "console ?s = []"
    by (simp add: Variable_Section_init_def)
  from lower_confirm_validates [OF inv c b lo hi] con inv show ?thesis
    by auto
qed

subsection \<open>Changing a digit\<close>

text \<open>
  C8. \<^verbatim>\<open>update_two_step(value)\<close> changes nothing but the digit list and the count of
  redraw requests: the phase, the cursor and every other field stay. With the cursor on
  digit \<open>i\<close> that digit becomes \<open>(old + value) mod 10\<close> and the others keep their
  values, so all digits stay in 0..9; with the cursor on the RPM label no digit changes.
  Ten calls with \<open>value = 1\<close> bring the digits back to what they were.
\<close>

theorem adjust_digit_wraps:
  assumes "session_inv s"
  shows "\<exists>s'. update_two_step v s = Inr s' \<and>
           s' = s\<lparr> two_step_current_digit_values := two_step_current_digit_values s',
                    redraws := Suc (redraws s) \<rparr> \<and>
           length (two_step_current_digit_values s') = 4 \<and>
           list_all (\<lambda>d. 0 \<le> d \<and> d \<le> 9) (two_step_current_digit_values s') \<and>
           (\<forall>i<4. selected_two_step_digit s = two_step_digit_list s ! i \<longrightarrow>
              two_step_current_digit_values s' =
                (two_step_current_digit_values s)[i := (two_step_current_digit_values s ! i + v) mod 10]) \<and>
           (selected_two_step_digit s = ''rmp_digit'' \<longrightarrow>
              two_step_current_digit_values s' = two_step_current_digit_values s) \<and>
           (\<exists>s10. two_step_run (replicate 10 (Adjust 1)) s = Inr s10 \<and>
              two_step_current_digit_values s10 = two_step_current_digit_values s)"
proof -
  have L: "two_step_digit_list s =
      [''first_digit'', ''second_digit'', ''third_digit'', ''forth_digit'', ''rmp_digit'']"
    and len: "length (two_step_current_digit_values s) = 4"
    and rng: "list_all (\<lambda>d. 0 \<le> d \<and> d \<le> 9) (two_step_current_digit_values s)"
    using assms by (auto simp add: session_inv_def)
  have distinct: "distinct (two_step_digit_list s)"
    by (simp add: L)
  show ?thesis
  proof (rule cursor_cases [OF assms])
    fix i assume i: "i < 4" "selected_two_step_digit s = two_step_digit_list s ! i"
    let ?ds = "two_step_current_digit_values s"
    let ?s' = "s\<lparr> two_step_current_digit_values := ?ds[i := (?ds ! i + v) mod 10],
                    redraws := Suc (redraws s) \<rparr>"
    have step: "update_two_step v s = Inr ?s'"
      by (rule update_two_step_digit [OF assms i])
    have inv': "session_inv ?s'"
      using update_two_step_total [OF assms, of v] step by simp
    have only: "\<forall>j<4. selected_two_step_digit s = two_step_digit_list s ! j \<longrightarrow>
        two_step_current_digit_values ?s' = ?ds[j := (?ds ! j + v) mod 10]"
    proof (intro allI impI)
      fix j assume "j < 4" "selected_two_step_digit s = two_step_digit_list s ! j"
      with i distinct have "j = i"
        by (simp add: L nth_eq_iff_index_eq)
      then show "two_step_current_digit_values ?s' = ?ds[j := (?ds ! j + v) mod 10]"
        by simp
    qed
    have notc: "selected_two_step_digit s \<noteq> ''rmp_digit''"
    proof -
      from \<open>i < 4\<close> consider "i = 0" | "i = 1" | "i = 2" | "i = 3" by linarith
      then show ?thesis using i(2) by cases (simp_all add: L)
    qed
    have d: "0 \<le> ?ds ! i" "?ds ! i \<le> 9"
      using rng len \<open>i < 4\<close> by (simp_all add: list_all_length)
    have ten: "two_step_run (replicate 10 (Adjust 1)) s = Inr (s\<lparr>redraws := redraws s + 10\<rparr>)"
      using adjust_times [OF assms i, of 10 1] d by simp
    show ?thesis
      using step inv' only notc ten
      by (simp add: session_inv_def)
  next
    assume c: "selected_two_step_digit s = ''rmp_digit''"
    have step: "update_two_step v s = Inr (s\<lparr>redraws := Suc (redraws s)\<rparr>)" for v
      by (rule update_two_step_confirm [OF c])
    have noti: "\<forall>i<4. selected_two_step_digit s \<noteq> two_step_digit_list s ! i"
    proof (intro allI impI)
      fix i :: nat assume "i < 4"
      then consider "i = 0" | "i = 1" | "i = 2" | "i = 3" by linarith
      then show "selected_two_step_digit s \<noteq> two_step_digit_list s ! i"
        using c by cases (simp_all add: L)
    qed
    have ten: "two_step_run (replicate 10 (Adjust 1)) s = Inr (s\<lparr>redraws := redraws s + 10\<rparr>)"
      by (rule adjust_times_confirm [OF c])
    show ?thesis
      using step len rng noti ten c
      by simp
  qed
qed

theorem adjust_digit_wraps_witness:
  "session_inv ((Variable_Section_init 0)\<lparr>selected_two_step_digit := ''third_digit'',
       two_step_current_digit_values := [1, 2, 9, 4]\<rparr>) \<and>
   (\<exists>s'. update_two_step 1 ((Variable_Section_init 0)\<lparr>selected_two_step_digit := ''third_digit'',
       two_step_current_digit_values := [1, 2, 9, 4]\<rparr>) = Inr s' \<and>
      two_step_current_digit_values s' = [1, 2, 0, 4])"
proof -
  let ?s = "(Variable_Section_init 0)\<lparr>selected_two_step_digit := ''third_digit'',
       two_step_current_digit_values := [1, 2, 9, 4]\<rparr>"
  have inv: "session_inv ?s"
    by (simp add: session_inv_def Variable_Section_init_def)
  from adjust_digit_wraps [OF inv, of 1] obtain s' where
    step: "update_two_step 1 ?s = Inr s'"
    and only: "\<forall>i<4. selected_two_step_digit ?s = two_step_digit_list ?s ! i \<longrightarrow>
              two_step_current_digit_values s' =
                (two_step_current_digit_values ?s)[i := (two_step_current_digit_values ?s ! i + 1) mod 10]"
    by blast
  have "two_step_current_digit_values s' = [1, 2, 0, 4]"
    using spec [OF only, of 2] by (simp add: Variable_Section_init_def numeral_eq_Suc)
  with step inv show ?thesis
    by blast
qed

subsection \<open>The stored upper bound\<close>

text \<open>
  C10. Once the session is in the Lower phase, no run of \<^verbatim>\<open>update_two_step\<close> and
  \<^verbatim>\<open>move_two_step\<close> calls changes \<^verbatim>\<open>new_two_step_bounds[0]\<close>, and the phase stays
  Lower. The only call of these two that ever changes it is \<^verbatim>\<open>move_two_step\<close> on the RPM
  label in the Upper phase; \<^verbatim>\<open>change_widget\<close> touches the bounds only when it
  re-enters Two-Step, where it resets them.
\<close>

theorem upper_bound_frame:
  assumes "session_inv s" and "two_step_bound s = ''Lower''"
  shows "(\<exists>s'. two_step_run ins s = Inr s' \<and>
            new_two_step_bounds s' ! 0 = new_two_step_bounds s ! 0 \<and>
            two_step_bound s' = ''Lower'') \<and>
         (\<forall>t i t'. session_inv t \<and> two_step_step i t = Inr t' \<and>
            new_two_step_bounds t' ! 0 \<noteq> new_two_step_bounds t ! 0 \<longrightarrow>
            i = Advance \<and> selected_two_step_digit t = ''rmp_digit'' \<and> two_step_bound t = ''Upper'') \<and>
         (\<forall>w. new_two_step_bounds (change_widget w s) =
            (if w = ''Two-Step'' then [0, 0] else new_two_step_bounds s))"
proof (intro conjI)
  show "\<exists>s'. two_step_run ins s = Inr s' \<and>
            new_two_step_bounds s' ! 0 = new_two_step_bounds s ! 0 \<and>
            two_step_bound s' = ''Lower''"
    using assms
  proof (induction ins arbitrary: s)
    case Nil
    then show ?case by simp
  next
    case (Cons i ins)
    from two_step_step_frame [OF Cons.prems(1), of i] Cons.prems(2)
    obtain s1 where s1: "two_step_step i s = Inr s1" "session_inv s1"
      "two_step_bound s1 = ''Lower''" "new_two_step_bounds s1 ! 0 = new_two_step_bounds s ! 0"
      by blast
    from Cons.IH [OF s1(2,3)] s1(1,4) show ?case
      by (simp add: bind_err_Inr)
  qed
next
  show "\<forall>t i t'. session_inv t \<and> two_step_step i t = Inr t' \<and>
            new_two_step_bounds t' ! 0 \<noteq> new_two_step_bounds t ! 0 \<longrightarrow>
            i = Advance \<and> selected_two_step_digit t = ''rmp_digit'' \<and> two_step_bound t = ''Upper''"
  proof (intro allI impI)
    fix t i t'
    assume h: "session_inv t \<and> two_step_step i t = Inr t' \<and>
            new_two_step_bounds t' ! 0 \<noteq> new_two_step_bounds t ! 0"
    with two_step_step_frame [of t i]
    show "i = Advance \<and> selected_two_step_digit t = ''rmp_digit'' \<and> two_step_bound t = ''Upper''"
      by auto
  qed
next
  show "\<forall>w. new_two_step_bounds (change_widget w s) =
            (if w = ''Two-Step'' then [0, 0] else new_two_step_bounds s)"
    by (simp add: change_widget_def update_def Let_def)
qed

theorem upper_bound_frame_witness:
  "session_inv ((Variable_Section_init 0)\<lparr>new_two_step_bounds := [1000, 0],
       two_step_bound := ''Lower''\<rparr>) \<and>
   (\<exists>s'. two_step_run [Adjust 1, Advance, Adjust (- 1), Advance, Advance, Advance, Advance]
       ((Variable_Section_init 0)\<lparr>new_two_step_bounds := [1000, 0],
       two_step_bound := ''Lower''\<rparr>) = Inr s' \<and>
      new_two_step_bounds s' ! 0 = 1000)"
proof -
  let ?s = "(Variable_Section_init 0)\<lparr>new_two_step_bounds := [1000, 0],
       two_step_bound := ''Lower''\<rparr>"
  have inv: "session_inv ?s"
    by (simp add: session_inv_def Variable_Section_init_def)
  have b: "two_step_bound ?s = ''Lower''"
    by simp
  from upper_bound_frame [OF inv b, of "[Adjust 1, Advance, Adjust (- 1), Advance, Advance, Advance, Advance]"]
    inv show ?thesis
    by auto
qed

section \<open>Properties of the gauges\<close>

subsection \<open>Wrap-around of the stored value\<close>

lemma py_mod_pos: "0 < b \<Longrightarrow> py_mod a b = Inr (a mod b)"
  by (simp add: py_mod_def)

lemma add_to_value_ok:
  "0 < max_value g \<Longrightarrow>
   add_to_value d g =
     Inr (g\<lparr>gauge_value := (gauge_value g + d) mod (max_value g + 1), redraws := Suc (redraws g)\<rparr>)"
  by (simp add: add_to_value_def py_mod_pos bind_err_Inr update_def)

lemma update_value_ok:
  "0 < max_value g \<Longrightarrow>
   update_value n g =
     Inr (g\<lparr>gauge_value := n mod (max_value g + 1), redraws := Suc (redraws g)\<rparr>)"
  by (simp add: update_value_def py_mod_pos bind_err_Inr update_def)

lemma wrap_range: "0 < (m::int) \<Longrightarrow> 0 \<le> a mod (m + 1) \<and> a mod (m + 1) \<le> m"
  using pos_mod_bound [of "m + 1" a] by simp

lemma gauge_step_range:
  assumes "0 < max_value g"
  shows "\<exists>g'. gauge_step c g = Inr g' \<and> max_value g' = max_value g \<and>
           0 \<le> gauge_value g' \<and> gauge_value g' \<le> max_value g'"
  using assms wrap_range [OF assms]
  by (cases c) (simp_all add: add_to_value_ok update_value_ok)

lemma gauge_run_range:
  assumes "0 < max_value g" "0 \<le> gauge_value g" "gauge_value g \<le> max_value g"
  shows "\<exists>g'. gauge_run cs g = Inr g' \<and> max_value g' = max_value g \<and>
           0 \<le> gauge_value g' \<and> gauge_value g' \<le> max_value g'"
  using assms
proof (induction cs arbitrary: g)
  case Nil
  then show ?case by simp
next
  case (Cons c cs)
  from gauge_step_range [OF Cons.prems(1), of c] obtain g1 where
    g1: "gauge_step c g = Inr g1" "max_value g1 = max_value g"
    "0 \<le> gauge_value g1" "gauge_value g1 \<le> max_value g1"
    by blast
  from Cons.IH [of g1] g1 Cons.prems(1) show ?case
    by (simp add: bind_err_Inr)
qed

lemma gauge_run_adds:
  assumes "0 < max_value g" "0 \<le> gauge_value g" "gauge_value g \<le> max_value g"
  shows "gauge_run (map Add_to_value ds) g =
           Inr (g\<lparr>gauge_value := (gauge_value g + sum_list ds) mod (max_value g + 1),
                 redraws := redraws g + length ds\<rparr>)"
  using assms
proof (induction ds arbitrary: g)
  case Nil
  then show ?case by simp
next
  case (Cons d ds)
  let ?g1 = "g\<lparr>gauge_value := (gauge_value g + d) mod (max_value g + 1), redraws := Suc (redraws g)\<rparr>"
  have r: "0 \<le> gauge_value ?g1" "gauge_value ?g1 \<le> max_value ?g1" "0 < max_value ?g1"
    using wrap_range [OF Cons.prems(1)] Cons.prems(1) by simp_all
  have "((gauge_value g + d) mod (max_value g + 1) + sum_list ds) mod (max_value g + 1)
      = (gauge_value g + (d + sum_list ds)) mod (max_value g + 1)"
    by (simp add: mod_add_left_eq add.assoc)
  then show ?case
    using Cons.IH [OF r(3) r(1) r(2)]
    by (simp add: add_to_value_ok [OF Cons.prems(1)] bind_err_Inr)
qed

text \<open>
  C3. Take a gauge built by any of the four constructors with \<open>max_value > 0\<close> and
  run any calls of \<^verbatim>\<open>add_to_value\<close> and \<^verbatim>\<open>update_value\<close> on it. No call
  raises, and the stored value lies in \<open>0..max_value\<close>; so it does after one more
  \<^verbatim>\<open>add_to_value\<close> with any change, negative ones included, and after one more
  \<^verbatim>\<open>update_value\<close> with any new value. A run of \<^verbatim>\<open>add_to_value\<close> calls whose
  changes sum to a multiple of \<open>max_value + 1\<close> leaves the value where it was.
\<close>

theorem gauge_value_wraps:
  assumes "init \<in> {Temp_Gauge_init, Tachometer_init, Fuel_Gauge_init, Speedometer_init}"
    and "init font_id m = Inr g0"
    and "0 < max_value g0"
  shows "\<exists>g. gauge_run cs g0 = Inr g \<and> max_value g = max_value g0 \<and>
           0 \<le> gauge_value g \<and> gauge_value g \<le> max_value g \<and>
           (\<forall>d. \<exists>g'. add_to_value d g = Inr g' \<and> max_value g' = max_value g \<and>
              0 \<le> gauge_value g' \<and> gauge_value g' \<le> max_value g') \<and>
           (\<forall>n. \<exists>g'. update_value n g = Inr g' \<and> max_value g' = max_value g \<and>
              0 \<le> gauge_value g' \<and> gauge_value g' \<le> max_value g') \<and>
           (\<forall>ds. (max_value g + 1) dvd sum_list ds \<longrightarrow>
              (\<exists>g'. gauge_run (map Add_to_value ds) g = Inr g' \<and> gauge_value g' = gauge_value g))"
proof -
  have "gauge_value g0 = 0"
    using assms(1,2)
    by (auto simp add: Temp_Gauge_init_def Tachometer_init_def Fuel_Gauge_init_def
        Speedometer_init_def gauge_init_def)
  then have r0: "0 \<le> gauge_value g0" "gauge_value g0 \<le> max_value g0"
    using assms(3) by simp_all
  from gauge_run_range [OF assms(3) r0, of cs] obtain g where
    g: "gauge_run cs g0 = Inr g" "max_value g = max_value g0"
    "0 \<le> gauge_value g" "gauge_value g \<le> max_value g"
    by blast
  have pos: "0 < max_value g"
    using g(2) assms(3) by simp
  have a: "\<forall>d. \<exists>g'. add_to_value d g = Inr g' \<and> max_value g' = max_value g \<and>
              0 \<le> gauge_value g' \<and> gauge_value g' \<le> max_value g'"
    using gauge_step_range [OF pos, of "Add_to_value _"] by simp
  have u: "\<forall>n. \<exists>g'. update_value n g = Inr g' \<and> max_value g' = max_value g \<and>
              0 \<le> gauge_value g' \<and> gauge_value g' \<le> max_value g'"
    using gauge_step_range [OF pos, of "Update_value _"] by simp
  have s: "\<forall>ds. (max_value g + 1) dvd sum_list ds \<longrightarrow>
              (\<exists>g'. gauge_run (map Add_to_value ds) g = Inr g' \<and> gauge_value g' = gauge_value g)"
  proof (intro allI impI)
    fix ds assume "(max_value g + 1) dvd sum_list ds"
    then have "(gauge_value g + sum_list ds) mod (max_value g + 1) = gauge_value g mod (max_value g + 1)"
      by (metis mod_add_self2 dvd_eq_mod_eq_0 mod_add_right_eq add.right_neutral)
    also have "\<dots> = gauge_value g"
      using g(3,4) by simp
    finally show "\<exists>g'. gauge_run (map Add_to_value ds) g = Inr g' \<and> gauge_value g' = gauge_value g"
      by (simp add: gauge_run_adds [OF pos g(3,4)])
  qed
  from g a u s show ?thesis by blast
qed

theorem gauge_value_wraps_witness:
  "Temp_Gauge_init 0 None = Inr \<lparr>console = [], redraws = 0, gauge_value = 0, max_value = 300\<rparr> \<and>
   (\<exists>g. gauge_run [Add_to_value (- 1), Update_value 700, Add_to_value 5]
          \<lparr>console = [], redraws = 0, gauge_value = 0, max_value = 300\<rparr> = Inr g \<and>
        0 \<le> gauge_value g \<and> gauge_value g \<le> 300 \<and>
        (\<exists>g'. gauge_run (map Add_to_value [300, 2, - 1]) g = Inr g' \<and> gauge_value g' = gauge_value g))"
proof -
  let ?g0 = "\<lparr>console = [], redraws = 0, gauge_value = 0, max_value = 300\<rparr>"
  have mem: "Temp_Gauge_init \<in> {Temp_Gauge_init, Tachometer_init, Fuel_Gauge_init, Speedometer_init}"
    by simp
  have init: "Temp_Gauge_init 0 None = Inr ?g0"
    by (simp add: Temp_Gauge_init_def gauge_init_def)
  have pos: "0 < max_value ?g0"
    by simp
  from gauge_value_wraps [OF mem init pos, of "[Add_to_value (- 1), Update_value 700, Add_to_value 5]"]
  obtain g where g: "gauge_run [Add_to_value (- 1), Update_value 700, Add_to_value 5] ?g0 = Inr g"
    "max_value g = max_value ?g0" "0 \<le> gauge_value g" "gauge_value g \<le> max_value g"
    and s: "\<forall>ds. (max_value g + 1) dvd sum_list ds \<longrightarrow>
              (\<exists>g'. gauge_run (map Add_to_value ds) g = Inr g' \<and> gauge_value g' = gauge_value g)"
    by blast
  have "\<exists>g'. gauge_run (map Add_to_value [300, 2, - 1]) g = Inr g' \<and> gauge_value g' = gauge_value g"
    using spec [OF s, of "[300, 2, - 1]"] g(2) by simp
  with g init show ?thesis
    by auto
qed

subsection \<open>Construction\<close>

text \<open>
  C4 asks that a gauge with \<open>max_value \<le> 0\<close> is rejected when it is constructed.
  The constructors test nothing: a Temp_Gauge with \<open>max_value = 0\<close> and a Tachometer
  with \<open>max_value = -5\<close> are built as any other.
\<close>

theorem construction_unchecked_counterexample:
  "Temp_Gauge_init 0 (Some 0) = Inr \<lparr>console = [], redraws = 0, gauge_value = 0, max_value = 0\<rparr> \<and>
   Tachometer_init 0 (Some (- 5)) = Inr \<lparr>console = [], redraws = 0, gauge_value = 0, max_value = - 5\<rparr>"
  by (simp add: Temp_Gauge_init_def Tachometer_init_def gauge_init_def)

text \<open>
  C4, amended. Every constructor succeeds for every \<open>max_value\<close>, also for
  \<open>max_value \<le> 0\<close>: the gauge it returns holds the value 0 and the
  \<open>max_value\<close> it was given.
\<close>

theorem construction_accepts_any_max:
  "(\<exists>g. Temp_Gauge_init font_id (Some m) = Inr g \<and> gauge_value g = 0 \<and> max_value g = m) \<and>
   (\<exists>g. Tachometer_init font_id (Some m) = Inr g \<and> gauge_value g = 0 \<and> max_value g = m) \<and>
   (\<exists>g. Fuel_Gauge_init font_id (Some m) = Inr g \<and> gauge_value g = 0 \<and> max_value g = m) \<and>
   (\<exists>g. Speedometer_init font_id (Some m) = Inr g \<and> gauge_value g = 0 \<and> max_value g = m)"
  by (simp add: Temp_Gauge_init_def Tachometer_init_def Fuel_Gauge_init_def Speedometer_init_def
      gauge_init_def)

section \<open>Properties of float rounding\<close>

subsection \<open>round_half_even\<close>

lemma round_half_even_of_int: "round_half_even (of_int k) = k"
  by (simp add: round_half_even_def)

lemma round_half_even_error: "\<bar>of_int (round_half_even t) - t\<bar> \<le> 1 / 2"
proof -
  define d where "d = t - of_int \<lfloor>t\<rfloor>"
  have d: "0 \<le> d" "d < 1"
    unfolding d_def by linarith+
  have t: "t = of_int \<lfloor>t\<rfloor> + d"
    by (simp add: d_def)
  have "round_half_even t =
      (if d < 1 / 2 then \<lfloor>t\<rfloor> else if 1 / 2 < d then \<lfloor>t\<rfloor> + 1
       else if even \<lfloor>t\<rfloor> then \<lfloor>t\<rfloor> else \<lfloor>t\<rfloor> + 1)"
    by (simp only: round_half_even_def Let_def d_def)
  then have "round_half_even t = \<lfloor>t\<rfloor> \<and> d \<le> 1 / 2 \<or> round_half_even t = \<lfloor>t\<rfloor> + 1 \<and> 1 / 2 \<le> d"
    by (simp split: if_splits)
  then show ?thesis
  proof
    assume "round_half_even t = \<lfloor>t\<rfloor> \<and> d \<le> 1 / 2"
    then show ?thesis using d by (subst (2) t) simp
  next
    assume "round_half_even t = \<lfloor>t\<rfloor> + 1 \<and> 1 / 2 \<le> d"
    then show ?thesis using d by (subst (2) t) simp
  qed
qed

lemma round_half_even_ge:
  assumes "of_int k \<le> t"
  shows "k \<le> round_half_even t"
proof -
  have "k \<le> \<lfloor>t\<rfloor>"
    using assms by (simp add: le_floor_iff)
  then show ?thesis
    by (auto simp add: round_half_even_def Let_def)
qed

lemma round_half_even_le:
  assumes "t \<le> of_int k"
  shows "round_half_even t \<le> k"
proof (cases "t = of_int k")
  case True
  then show ?thesis by (simp add: round_half_even_of_int)
next
  case False
  with assms have "t < of_int k" by simp
  then have "\<lfloor>t\<rfloor> < k"
    by (simp add: floor_less_iff)
  then show ?thesis
    by (auto simp add: round_half_even_def Let_def)
qed

subsection \<open>binade\<close>

lemma binade_bounds:
  assumes "x \<noteq> 0"
  shows "2 powi binade x \<le> \<bar>x\<bar>" and "\<bar>x\<bar> < 2 powi (binade x + 1)"
proof -
  have "2 powi binade x \<le> \<bar>x\<bar> \<and> \<bar>x\<bar> < 2 powi (binade x + 1)"
  proof (cases "1 \<le> \<bar>x\<bar>")
    case True
    define n where "n = \<lfloor>\<bar>x\<bar>\<rfloor>"
    have n: "1 \<le> n" "of_int n \<le> \<bar>x\<bar>" "\<bar>x\<bar> < of_int n + 1"
      using True unfolding n_def by (simp_all add: le_floor_iff) linarith+
    have b: "2 ^ nat (bitlen n - 1) \<le> n" "n < 2 ^ nat (bitlen n)"
      using bitlen_bounds [of n] n(1) by simp_all
    have b1: "1 \<le> bitlen n"
      using n(1) by (simp add: bitlen_alt_def)
    have e: "binade x = bitlen n - 1"
      using True by (simp add: binade_def n_def)
    have "(2::rat) powi (bitlen n - 1) = of_int (2 ^ nat (bitlen n - 1))"
      using b1 by (simp add: power_int_def)
    also have "\<dots> \<le> of_int n"
      using b(1) by (simp only: of_int_le_iff)
    finally have lo: "2 powi (bitlen n - 1) \<le> \<bar>x\<bar>"
      using n(2) by simp
    have "n + 1 \<le> 2 ^ nat (bitlen n)"
      using b(2) by simp
    then have "(of_int (n + 1) :: rat) \<le> of_int (2 ^ nat (bitlen n))"
      by (simp only: of_int_le_iff)
    also have "(of_int (2 ^ nat (bitlen n)) :: rat) = 2 powi (bitlen n)"
      using b1 by (simp add: power_int_def)
    finally have hi: "\<bar>x\<bar> < 2 powi (bitlen n)"
      using n(3) by simp
    show ?thesis
      using lo hi by (simp add: e)
  next
    case False
    then have small: "\<bar>x\<bar> < 1" by simp
    have pos: "0 < \<bar>x\<bar>" using assms by simp
    define c where "c = \<lceil>1 / \<bar>x\<bar>\<rceil>"
    have gt1: "1 < 1 / \<bar>x\<bar>"
      using small pos by (simp add: field_simps)
    have c: "2 \<le> c" "1 / \<bar>x\<bar> \<le> of_int c" "of_int c - 1 < 1 / \<bar>x\<bar>"
      using gt1 unfolding c_def by (simp_all add: less_ceiling_iff) linarith+
    define k where "k = bitlen (c - 1)"
    have b: "2 ^ nat (k - 1) \<le> c - 1" "c - 1 < 2 ^ nat k"
      using bitlen_bounds [of "c - 1"] c(1) by (simp_all add: k_def)
    have k1: "1 \<le> k"
      using c(1) by (simp add: k_def bitlen_alt_def)
    have e: "binade x = - k"
      using False by (simp add: binade_def c_def k_def)
    have "c \<le> 2 ^ nat k" using b(2) by simp
    then have "(of_int c :: rat) \<le> of_int (2 ^ nat k)"
      by (simp only: of_int_le_iff)
    also have "(of_int (2 ^ nat k) :: rat) = 2 ^ nat k"
      by simp
    finally have "1 / \<bar>x\<bar> \<le> 2 ^ nat k"
      using c(2) by linarith
    then have "1 / 2 ^ nat k \<le> \<bar>x\<bar>"
      using pos by (simp add: field_simps)
    moreover have "(2::rat) powi (- k) = 1 / 2 ^ nat k"
      using k1 by (simp add: power_int_def field_simps)
    ultimately have lo: "2 powi (- k) \<le> \<bar>x\<bar>" by simp
    have "(of_int (2 ^ nat (k - 1)) :: rat) \<le> of_int (c - 1)"
      using b(1) by (simp only: of_int_le_iff)
    moreover have "(of_int (2 ^ nat (k - 1)) :: rat) = 2 ^ nat (k - 1)"
      by simp
    ultimately have "2 ^ nat (k - 1) < 1 / \<bar>x\<bar>"
      using c(3) by simp
    then have "\<bar>x\<bar> < 1 / 2 ^ nat (k - 1)"
      using pos by (simp add: field_simps)
    moreover have "(2::rat) powi (- k + 1) = 1 / 2 ^ nat (k - 1)"
    proof -
      have "- k + 1 = - int (nat (k - 1))" using k1 by simp
      then show ?thesis
        by (simp only: power_int_minus power_int_of_nat) (simp add: field_simps)
    qed
    ultimately have hi: "\<bar>x\<bar> < 2 powi (- k + 1)" by simp
    show ?thesis
      using lo hi by (simp add: e)
  qed
  then show "2 powi binade x \<le> \<bar>x\<bar>" and "\<bar>x\<bar> < 2 powi (binade x + 1)"
    by simp_all
qed

subsection \<open>Rounding to the spacing\<close>

lemma ulp_pos: "0 < ulp x"
  by (simp add: ulp_def)

lemma round_to_ulp_error: "\<bar>round_to_ulp x - x\<bar> \<le> ulp x / 2"
proof -
  have "round_to_ulp x - x = (of_int (round_half_even (x / ulp x)) - x / ulp x) * ulp x"
    using ulp_pos [of x] by (simp add: round_to_ulp_def field_simps)
  then have "\<bar>round_to_ulp x - x\<bar> = \<bar>of_int (round_half_even (x / ulp x)) - x / ulp x\<bar> * ulp x"
    using ulp_pos [of x] by (simp add: abs_mult abs_of_pos)
  also have "\<dots> \<le> (1 / 2) * ulp x"
    using round_half_even_error [of "x / ulp x"] ulp_pos [of x]
    by (intro mult_right_mono) simp_all
  finally show ?thesis by simp
qed

lemma round_to_ulp_nonneg: "0 \<le> x \<Longrightarrow> 0 \<le> round_to_ulp x"
  using round_half_even_ge [of 0 "x / ulp x"] ulp_pos [of x]
  by (simp add: round_to_ulp_def)

lemma round_to_ulp_nonpos: "x \<le> 0 \<Longrightarrow> round_to_ulp x \<le> 0"
  using round_half_even_le [of "x / ulp x" 0] ulp_pos [of x]
  by (simp add: round_to_ulp_def divide_nonpos_pos mult_nonpos_nonneg)

lemma binade_ge:
  assumes "2 powi k \<le> \<bar>x\<bar>"
  shows "k \<le> binade x"
proof (rule ccontr)
  assume "\<not> k \<le> binade x"
  then have "binade x + 1 \<le> k" by simp
  then have "(2::rat) powi (binade x + 1) \<le> 2 powi k"
    by (intro power_int_increasing) simp_all
  moreover have "x \<noteq> 0"
  proof -
    have "0 < (2::rat) powi k" by simp
    with assms have "0 < \<bar>x\<bar>" by linarith
    then show ?thesis by simp
  qed
  ultimately show False
    using binade_bounds(2) [of x] assms by simp
qed

lemma binade_less:
  assumes "x \<noteq> 0" "\<bar>x\<bar> < 2 powi k"
  shows "binade x < k"
proof (rule ccontr)
  assume "\<not> binade x < k"
  then have "(2::rat) powi k \<le> 2 powi binade x"
    by (intro power_int_increasing) simp_all
  then show False
    using binade_bounds(1) [OF assms(1)] assms(2) by simp
qed

lemma ulp_le_normal:
  assumes "2 powi (- 1022) \<le> \<bar>x\<bar>"
  shows "ulp x \<le> \<bar>x\<bar> / 2 ^ 52"
proof -
  have x: "x \<noteq> 0"
  proof -
    have "0 < (2::rat) powi (- 1022)" by simp
    with assms have "0 < \<bar>x\<bar>" by linarith
    then show ?thesis by simp
  qed
  have "- 1022 \<le> binade x"
    by (rule binade_ge [OF assms])
  then have "ulp x = 2 powi (binade x - 52)"
    by (simp add: ulp_def max_def)
  also have "\<dots> = 2 powi binade x / 2 ^ 52"
    by (simp add: power_int_diff)
  also have "\<dots> \<le> \<bar>x\<bar> / 2 ^ 52"
    using binade_bounds(1) [OF x] by (simp add: divide_right_mono)
  finally show ?thesis .
qed

lemma float_round_normal:
  assumes "2 powi (- 1022) \<le> \<bar>x\<bar>" and "\<bar>x\<bar> < 2 ^ 1023"
  shows "float_round x = Finite (round_to_ulp x)" and "\<bar>round_to_ulp x - x\<bar> \<le> \<bar>x\<bar> / 2 ^ 53"
proof -
  have x: "x \<noteq> 0"
  proof -
    have "0 < (2::rat) powi (- 1022)" by simp
    with assms(1) have "0 < \<bar>x\<bar>" by linarith
    then show ?thesis by simp
  qed
  have "\<bar>round_to_ulp x - x\<bar> \<le> ulp x / 2"
    by (rule round_to_ulp_error)
  also have "\<dots> \<le> (\<bar>x\<bar> / 2 ^ 52) / 2"
    using ulp_le_normal [OF assms(1)] by simp
  finally show err: "\<bar>round_to_ulp x - x\<bar> \<le> \<bar>x\<bar> / 2 ^ 53"
    by simp
  have "\<bar>x\<bar> / 2 ^ 53 \<le> \<bar>x\<bar>"
    by (simp add: field_simps)
  with err have "\<bar>round_to_ulp x\<bar> \<le> 2 * \<bar>x\<bar>"
    by linarith
  also have "\<dots> < 2 ^ 1024"
    using assms(2) by simp
  finally have "\<bar>round_to_ulp x\<bar> < 2 ^ 1024" .
  then show "float_round x = Finite (round_to_ulp x)"
    using x by (simp add: float_round_def Let_def abs_if split: if_splits)
qed

subsection \<open>Rounding never crosses a small integer\<close>

lemma ulp_small_inverse:
  assumes "x \<noteq> 0" "\<bar>x\<bar> < 2 ^ 53"
  shows "\<exists>n::nat. 1 / ulp x = 2 ^ n"
proof -
  have "\<bar>x\<bar> < 2 powi 53"
    using assms(2) by simp
  then have "binade x < 53"
    by (rule binade_less [OF assms(1)])
  then have "max (binade x) (- 1022) - 52 \<le> 0"
    by simp
  then obtain n :: nat where n: "max (binade x) (- 1022) - 52 = - int n"
    by (metis nonpos_int_cases)
  have "1 / ulp x = 2 ^ n"
    unfolding ulp_def n by (simp add: power_int_minus field_simps)
  then show ?thesis ..
qed

lemma round_to_ulp_ge_int:
  assumes "\<bar>k\<bar> < 2 ^ 53" and "of_int k \<le> x"
  shows "of_int k \<le> round_to_ulp x"
proof (cases "\<bar>x\<bar> < 2 ^ 53")
  case True
  show ?thesis
  proof (cases "x = 0")
    case True
    with assms(2) show ?thesis
      using round_to_ulp_nonneg [of 0] by simp
  next
    case False
    from ulp_small_inverse [OF False True] obtain n :: nat where n: "1 / ulp x = 2 ^ n" ..
    have u: "0 < ulp x" by (rule ulp_pos)
    have "of_int (k * 2 ^ n) = of_int k * (1 / ulp x)"
      by (simp add: n)
    also have "\<dots> \<le> x * (1 / ulp x)"
      using assms(2) u by (intro mult_right_mono) simp_all
    finally have "of_int (k * 2 ^ n) \<le> x / ulp x"
      by simp
    then have "k * 2 ^ n \<le> round_half_even (x / ulp x)"
      by (rule round_half_even_ge)
    then have "(of_int (k * 2 ^ n) :: rat) \<le> of_int (round_half_even (x / ulp x))"
      by (simp only: of_int_le_iff)
    then have le: "of_int (k * 2 ^ n) * ulp x \<le> round_to_ulp x"
      unfolding round_to_ulp_def using u by (intro mult_right_mono) simp_all
    have "(2::rat) ^ n * ulp x = 1"
      using n u by (simp add: field_simps)
    then have "of_int k = of_int k * (2 ^ n * ulp x)"
      by simp
    also have "\<dots> = of_int (k * 2 ^ n) * ulp x"
      by (simp add: mult.assoc)
    finally have eq: "of_int k = of_int (k * 2 ^ n) * ulp x" .
    show ?thesis
      by (subst eq) (rule le)
  qed
next
  case False
  then have big: "2 ^ 53 \<le> \<bar>x\<bar>" by simp
  have "of_int \<bar>k\<bar> < (2 ^ 53 :: rat)"
    using assms(1) by (metis of_int_less_iff of_int_numeral of_int_power)
  then have kx: "\<bar>of_int k :: rat\<bar> < \<bar>x\<bar>"
    using big by simp
  with assms(2) have pos: "0 < x"
    by (simp add: abs_if split: if_splits)
  have "\<bar>round_to_ulp x - x\<bar> \<le> \<bar>x\<bar> / 2 ^ 53"
  proof -
    have "(2::rat) powi (- 1022) \<le> 1"
      by (simp add: power_int_le_one)
    also have "\<dots> \<le> \<bar>x\<bar>" using big by simp
    finally have "2 powi (- 1022) \<le> \<bar>x\<bar>" .
    then have "ulp x \<le> \<bar>x\<bar> / 2 ^ 52"
      by (rule ulp_le_normal)
    with round_to_ulp_error [of x] show ?thesis by simp
  qed
  then have "x - x / 2 ^ 53 \<le> round_to_ulp x"
    using pos by (simp add: abs_if split: if_splits)
  moreover have "2 ^ 53 - 1 \<le> x - x / 2 ^ 53"
  proof -
    have "2 ^ 53 \<le> x" using big pos by simp
    then have "2 ^ 53 * (1 - 1 / 2 ^ 53) \<le> x * (1 - 1 / 2 ^ 53)"
      by (intro mult_right_mono) simp_all
    then show ?thesis by (simp add: algebra_simps)
  qed
  moreover have "of_int k \<le> (2 ^ 53 - 1 :: rat)"
  proof -
    have "k \<le> 2 ^ 53 - 1" using assms(1) by simp
    then have "(of_int k :: rat) \<le> of_int (2 ^ 53 - 1)"
      by (simp only: of_int_le_iff)
    then show ?thesis by simp
  qed
  ultimately show ?thesis by linarith
qed

lemma round_to_ulp_le_int:
  assumes "\<bar>k\<bar> < 2 ^ 53" and "x \<le> of_int k"
  shows "round_to_ulp x \<le> of_int k"
proof (cases "\<bar>x\<bar> < 2 ^ 53")
  case True
  show ?thesis
  proof (cases "x = 0")
    case True
    with assms(2) show ?thesis
      using round_to_ulp_nonpos [of 0] by simp
  next
    case False
    from ulp_small_inverse [OF False True] obtain n :: nat where n: "1 / ulp x = 2 ^ n" ..
    have u: "0 < ulp x" by (rule ulp_pos)
    have "x * (1 / ulp x) \<le> of_int k * (1 / ulp x)"
      using assms(2) u by (intro mult_right_mono) simp_all
    also have "\<dots> = of_int (k * 2 ^ n)"
      by (simp add: n)
    finally have "x / ulp x \<le> of_int (k * 2 ^ n)"
      by simp
    then have "round_half_even (x / ulp x) \<le> k * 2 ^ n"
      by (rule round_half_even_le)
    then have "(of_int (round_half_even (x / ulp x)) :: rat) \<le> of_int (k * 2 ^ n)"
      by (simp only: of_int_le_iff)
    then have le: "round_to_ulp x \<le> of_int (k * 2 ^ n) * ulp x"
      unfolding round_to_ulp_def using u by (intro mult_right_mono) simp_all
    have "(2::rat) ^ n * ulp x = 1"
      using n u by (simp add: field_simps)
    then have "of_int k = of_int k * (2 ^ n * ulp x)"
      by simp
    also have "\<dots> = of_int (k * 2 ^ n) * ulp x"
      by (simp add: mult.assoc)
    finally have eq: "of_int k = of_int (k * 2 ^ n) * ulp x" .
    show ?thesis
      by (subst eq) (rule le)
  qed
next
  case False
  then have big: "2 ^ 53 \<le> \<bar>x\<bar>" by simp
  have "of_int \<bar>k\<bar> < (2 ^ 53 :: rat)"
    using assms(1) by (metis of_int_less_iff of_int_numeral of_int_power)
  then have kx: "\<bar>of_int k :: rat\<bar> < \<bar>x\<bar>"
    using big by simp
  with assms(2) have neg: "x < 0"
    by (simp add: abs_if split: if_splits)
  have "\<bar>round_to_ulp x - x\<bar> \<le> \<bar>x\<bar> / 2 ^ 53"
  proof -
    have "(2::rat) powi (- 1022) \<le> 1"
      by (simp add: power_int_le_one)
    also have "\<dots> \<le> \<bar>x\<bar>" using big by simp
    finally have "2 powi (- 1022) \<le> \<bar>x\<bar>" .
    then have "ulp x \<le> \<bar>x\<bar> / 2 ^ 52"
      by (rule ulp_le_normal)
    with round_to_ulp_error [of x] show ?thesis by simp
  qed
  then have "round_to_ulp x \<le> x - x / 2 ^ 53"
    using neg by (simp add: abs_if split: if_splits)
  moreover have "x - x / 2 ^ 53 \<le> - (2 ^ 53 - 1)"
  proof -
    have "2 ^ 53 \<le> - x" using big neg by simp
    then have "2 ^ 53 * (1 - 1 / 2 ^ 53) \<le> (- x) * (1 - 1 / 2 ^ 53)"
      by (intro mult_right_mono) simp_all
    then show ?thesis by (simp add: algebra_simps)
  qed
  moreover have "- (2 ^ 53 - 1 :: rat) \<le> of_int k"
  proof -
    have "- (2 ^ 53 - 1) \<le> k" using assms(1) by simp
    then have "(of_int (- (2 ^ 53 - 1)) :: rat) \<le> of_int k"
      by (simp only: of_int_le_iff)
    then show ?thesis by simp
  qed
  ultimately show ?thesis by linarith
qed

lemma float_round_between:
  assumes "\<bar>lo\<bar> < 2 ^ 53" "\<bar>hi\<bar> < 2 ^ 53" "of_int lo \<le> x" "x \<le> of_int hi"
  shows "float_round x = Finite (round_to_ulp x)"
    and "of_int lo \<le> round_to_ulp x" and "round_to_ulp x \<le> of_int hi"
proof -
  show lo: "of_int lo \<le> round_to_ulp x"
    by (rule round_to_ulp_ge_int [OF assms(1,3)])
  show hi: "round_to_ulp x \<le> of_int hi"
    by (rule round_to_ulp_le_int [OF assms(2,4)])
  have "(of_int hi :: rat) < of_int (2 ^ 53)"
    using assms(2) by (simp only: of_int_less_iff)
  then have h: "round_to_ulp x < 2 ^ 1024"
    using hi by simp
  have "(of_int (- (2 ^ 53)) :: rat) < of_int lo"
    using assms(1) by (simp only: of_int_less_iff)
  then have l: "- (2 ^ 1024) < round_to_ulp x"
    using lo by simp
  have "round_to_ulp 0 = 0"
    using round_to_ulp_nonneg [of 0] round_to_ulp_nonpos [of 0] by simp
  then show "float_round x = Finite (round_to_ulp x)"
    using h l by (simp add: float_round_def Let_def)
qed

lemma float_round_of_int:
  assumes "\<bar>k\<bar> < 2 ^ 53"
  shows "float_round (of_int k) = Finite (of_int k)"
  using float_round_between [OF assms assms, of "of_int k"] by simp

lemma float_round_pos_normal:
  assumes "1 / 4 \<le> x" "x < 2 ^ 1023"
  shows "\<exists>y. float_round x = Finite y \<and> x * (1 - 1 / 2 ^ 53) \<le> y \<and> y \<le> x * (1 + 1 / 2 ^ 53)"
proof -
  have "(2::rat) powi (- 1022) \<le> 2 powi (- 2)"
    by (intro power_int_increasing) simp_all
  also have "\<dots> = 1 / 4"
    by (simp add: power_int_minus)
  finally have lo: "2 powi (- 1022) \<le> \<bar>x\<bar>"
    using assms(1) by simp
  have hi: "\<bar>x\<bar> < 2 ^ 1023"
    using assms by simp
  have pos: "0 < x" using assms(1) by simp
  from float_round_normal [OF lo hi] pos
  have "float_round x = Finite (round_to_ulp x)" "\<bar>round_to_ulp x - x\<bar> \<le> x / 2 ^ 53"
    by simp_all
  then show ?thesis
    by (auto simp add: algebra_simps abs_if split: if_splits)
qed

lemma float_of_int_pos:
  assumes "0 < n" "n < 2 ^ 1023"
  shows "\<exists>y. float_of_int n = Inr (Finite y) \<and>
           of_int n * (1 - 1 / 2 ^ 53) \<le> y \<and> y \<le> of_int n * (1 + 1 / 2 ^ 53)"
proof -
  have "(1::rat) \<le> of_int n"
    using assms(1) by simp
  then have lo: "1 / 4 \<le> (of_int n :: rat)" by simp
  have "(of_int n :: rat) < of_int (2 ^ 1023)"
    using assms(2) by (simp only: of_int_less_iff)
  then have hi: "(of_int n :: rat) < 2 ^ 1023" by simp
  from float_round_pos_normal [OF lo hi] show ?thesis
    by (auto simp add: float_of_int_def)
qed

lemma float_of_int_small:
  "\<bar>k\<bar> < 2 ^ 53 \<Longrightarrow> float_of_int k = Inr (Finite (of_int k))"
  by (simp add: float_of_int_def float_round_of_int)

lemma float_lit_half: "float_lit (1 / 2) = Finite (1 / 2)"
proof -
  have b: "binade (1 / 2) = - 1"
    by (simp add: binade_def compute_bitlen)
  have u: "ulp (1 / 2) = 1 / 2 ^ 53"
    by (simp add: ulp_def b power_int_minus field_simps)
  have "(1 / 2) / ulp (1 / 2) = (of_int (2 ^ 52) :: rat)"
    by (simp add: u)
  then have "round_to_ulp (1 / 2) = 1 / 2"
    unfolding round_to_ulp_def by (simp only: round_half_even_of_int) (simp add: u)
  then show ?thesis
    by (simp add: float_lit_def float_round_def)
qed

lemma round_between_finite:
  assumes "\<bar>lo\<bar> < 2 ^ 53" "\<bar>hi\<bar> < 2 ^ 53" "of_int lo \<le> x" "x \<le> of_int hi"
  shows "\<exists>y. float_round x = Finite y \<and> of_int lo \<le> y \<and> y \<le> of_int hi"
  using float_round_between [OF assms] by blast

lemma binade_eq:
  assumes "2 powi b \<le> \<bar>x\<bar>" "\<bar>x\<bar> < 2 powi (b + 1)"
  shows "binade x = b"
proof -
  have "0 < (2::rat) powi b" by simp
  with assms(1) have "0 < \<bar>x\<bar>" by linarith
  then have x: "x \<noteq> 0" by simp
  have "b \<le> binade x"
    by (rule binade_ge [OF assms(1)])
  moreover have "binade x < b + 1"
    by (rule binade_less [OF x assms(2)])
  ultimately show ?thesis by simp
qed

lemma floor_rat_numeral_div: "\<lfloor>(numeral a :: rat) / numeral b\<rfloor> = numeral a div numeral b"
  using floor_divide_of_int_eq [of "numeral a" "numeral b", where ?'a = rat] by simp

lemma float_lit_2_5: "float_lit (2 / 5) = Finite (3602879701896397 / 9007199254740992)"
proof -
  have b: "binade (2 / 5) = - 2"
    by (rule binade_eq) (simp_all add: power_int_minus)
  have u: "ulp (2 / 5) = 1 / 2 ^ 54"
    by (simp add: ulp_def b power_int_minus field_simps)
  have "round_to_ulp (2 / 5) = 3602879701896397 / 9007199254740992"
    by (simp add: round_to_ulp_def u round_half_even_def Let_def floor_rat_numeral_div)
  then show ?thesis
    by (simp add: float_lit_def float_round_def)
qed

lemma float_lit_1_5: "float_lit (1 / 5) = Finite (3602879701896397 / 18014398509481984)"
proof -
  have b: "binade (1 / 5) = - 3"
    by (rule binade_eq) (simp_all add: power_int_minus)
  have u: "ulp (1 / 5) = 1 / 2 ^ 55"
    by (simp add: ulp_def b power_int_minus field_simps)
  have "round_to_ulp (1 / 5) = 3602879701896397 / 18014398509481984"
    by (simp add: round_to_ulp_def u round_half_even_def Let_def floor_rat_numeral_div)
  then show ?thesis
    by (simp add: float_lit_def float_round_def)
qed

lemma fuel_threshold_40:
  "int_mul_float 100 (float_lit (2 / 5)) = Inr (Finite 40)"
proof -
  define x :: rat where "x = 100 * (3602879701896397 / 9007199254740992)"
  have b: "binade x = 5"
    by (rule binade_eq) (simp_all add: x_def)
  have u: "ulp x = 1 / 2 ^ 47"
    by (simp add: ulp_def b power_int_minus field_simps)
  have "round_to_ulp x = 40"
    unfolding round_to_ulp_def u
    by (simp add: x_def round_half_even_def Let_def floor_rat_numeral_div)
  then have "float_round x = Finite 40"
    by (simp add: float_round_def x_def)
  then show ?thesis
    by (simp add: int_mul_float_def float_of_int_small bind_err_Inr float_lit_2_5 x_def)
qed

lemma fuel_threshold_20:
  "int_mul_float 100 (float_lit (1 / 5)) = Inr (Finite 20)"
proof -
  define x :: rat where "x = 100 * (3602879701896397 / 18014398509481984)"
  have b: "binade x = 4"
    by (rule binade_eq) (simp_all add: x_def)
  have u: "ulp x = 1 / 2 ^ 48"
    by (simp add: ulp_def b power_int_minus field_simps)
  have "round_to_ulp x = 20"
    unfolding round_to_ulp_def u
    by (simp add: x_def round_half_even_def Let_def floor_rat_numeral_div)
  then have "float_round x = Finite 20"
    by (simp add: float_round_def x_def)
  then show ?thesis
    by (simp add: int_mul_float_def float_of_int_small bind_err_Inr float_lit_1_5 x_def)
qed

lemma fuel_pen_100:
  assumes "max_value g = 100"
  shows "Fuel_Gauge_fill_pen g =
           Inr (Solid (if 40 \<le> gauge_value g then QColor 0 255 0
                       else if 20 \<le> gauge_value g then QColor 255 255 0
                       else if 0 \<le> gauge_value g then QColor 255 0 0
                       else QColor 255 0 255))"
  by (simp add: Fuel_Gauge_fill_pen_def assms fuel_threshold_40 fuel_threshold_20 bind_err_Inr)

lemma float_of_int_nonneg_cases:
  assumes "0 \<le> n"
  shows "(2 ^ 1023 \<le> n \<and> float_of_int n = Inl OverflowError) \<or>
         (\<exists>y. float_of_int n = Inr (Finite y) \<and>
            of_int n * (1 - 1 / 2 ^ 53) \<le> y \<and> y \<le> of_int n * (1 + 1 / 2 ^ 53) \<and> y < 2 ^ 1024)"
proof (cases "n < 2 ^ 1023")
  case True
  show ?thesis
  proof (cases "n = 0")
    case True
    then show ?thesis by (simp add: float_of_int_def float_round_def)
  next
    case False
    with assms have pos: "0 < n" by simp
    from float_of_int_pos [OF pos True] obtain y where
      y: "float_of_int n = Inr (Finite y)" "of_int n * (1 - 1 / 2 ^ 53) \<le> y"
        "y \<le> of_int n * (1 + 1 / 2 ^ 53)"
      by blast
    have "(of_int n :: rat) < of_int (2 ^ 1023)"
      using True by (simp only: of_int_less_iff)
    then have "(of_int n :: rat) < 2 ^ 1023" by simp
    then have "of_int n * (1 + 1 / 2 ^ 53) < (2 ^ 1024 :: rat)"
      by simp
    with y show ?thesis by auto
  qed
next
  case False
  then have big: "2 ^ 1023 \<le> n" by simp
  define x :: rat where "x = of_int n"
  have "(of_int (2 ^ 1023) :: rat) \<le> of_int n"
    using big by (simp only: of_int_le_iff)
  then have x1: "1 \<le> x" by (simp add: x_def)
  have "(2::rat) powi (- 1022) \<le> 1"
    by (simp add: power_int_le_one)
  then have "2 powi (- 1022) \<le> \<bar>x\<bar>" using x1 by simp
  then have "ulp x \<le> \<bar>x\<bar> / 2 ^ 52"
    by (rule ulp_le_normal)
  with round_to_ulp_error [of x] x1 have err: "\<bar>round_to_ulp x - x\<bar> \<le> x / 2 ^ 53"
    by simp
  show ?thesis
  proof (cases "float_round x")
    case (Finite y)
    then have "y = round_to_ulp x" "y < 2 ^ 1024"
      using x1 by (auto simp add: float_round_def Let_def split: if_splits)
    with err Finite show ?thesis
      by (auto simp add: float_of_int_def x_def [symmetric] algebra_simps abs_if split: if_splits)
  next
    case PosInf
    with big show ?thesis by (simp add: float_of_int_def x_def)
  next
    case NegInf
    with big show ?thesis by (simp add: float_of_int_def x_def)
  next
    case NaN
    with big show ?thesis by (simp add: float_of_int_def x_def)
  qed
qed

lemma half_max_value:
  assumes "float_of_int m = Inr (Finite ym)" "7 / 8 \<le> ym" "ym < 2 ^ 1024"
  shows "\<exists>h. int_mul_float m (float_lit (5 / 10)) = Inr (Finite h) \<and>
           ym * (7 / 16) \<le> h \<and> h \<le> ym * (9 / 16)"
proof -
  define e :: rat where "e = 1 / 2 ^ 53"
  have e: "0 < e" "e \<le> 1 / 8"
    by (simp_all add: e_def)
  have "1 / 4 \<le> ym / 2" "ym / 2 < 2 ^ 1023"
    using assms(2,3) by simp_all
  from float_round_pos_normal [OF this] obtain h where
    h: "float_round (ym / 2) = Finite h" "ym / 2 * (1 - e) \<le> h" "h \<le> ym / 2 * (1 + e)"
    unfolding e_def by blast
  have "ym / 2 * (7 / 8) \<le> ym / 2 * (1 - e)"
    using e assms(2) by (intro mult_left_mono) simp_all
  then have h_lo: "ym * (7 / 16) \<le> h"
    using h(2) by simp
  have "ym / 2 * (1 + e) \<le> ym / 2 * (9 / 8)"
    using e assms(2) by (intro mult_left_mono) simp_all
  then have h_hi: "h \<le> ym * (9 / 16)"
    using h(3) by simp
  have "int_mul_float m (float_lit (5 / 10)) = Inr (Finite h)"
    by (simp add: int_mul_float_def assms(1) bind_err_Inr float_lit_half h(1))
  with h_lo h_hi show ?thesis by blast
qed

lemma arc_fill_from_floats:
  assumes m: "0 < max_value g"
    and v: "gauge_value g \<le> max_value g"
    and ym: "float_of_int (max_value g) = Inr (Finite ym)" "7 / 8 \<le> ym"
      "of_int (max_value g) * (7 / 8) \<le> ym"
    and h: "int_mul_float (max_value g) (float_lit (5 / 10)) = Inr (Finite h)"
      "ym * (7 / 16) \<le> h" "h \<le> ym * (9 / 16)"
    and yv: "float_of_int (gauge_value g) = Inr (Finite yv)" "0 \<le> yv"
      "yv \<le> of_int (gauge_value g) * (9 / 8)"
  shows "\<exists>a s. Tachometer_arc_value g = Inr (Finite a) \<and> a \<le> 0 \<and>
           Tachometer_arc_fill g = Inr s \<and>
           (if a < - 90 then s = PyInt (- 90 * 16)
            else \<exists>y. float_mul_int (Finite a) 16 = Inr (Finite y) \<and>
                   s = PyFloat (Finite y) \<and> - 90 * 16 \<le> y \<and> y \<le> 0) \<and>
           (gauge_value g = max_value g \<longrightarrow> s = PyInt (- 90 * 16))"
proof -
  define e :: rat where "e = 1 / 2 ^ 53"
  have e: "0 < e" "e \<le> 1 / 8"
    by (simp_all add: e_def)
  have h_pos: "0 < h"
    using h(2) ym(2) by simp
  \<comment> \<open>\<open>self.value / (self.max_value*.5)\<close>\<close>
  have yv_hi: "yv \<le> 16 * h"
  proof -
    have "(of_int (gauge_value g) :: rat) \<le> of_int (max_value g)"
      using v by simp
    then have "yv \<le> of_int (max_value g) * (9 / 8)"
      using yv(3) by simp
    then show ?thesis
      using ym(3) h(2) h_pos by linarith
  qed
  have t_rng: "of_int 0 \<le> yv / h" "yv / h \<le> of_int 16"
    using yv(2) yv_hi h_pos by (simp_all add: pos_divide_le_eq)
  from round_between_finite [OF _ _ t_rng] obtain q where
    q: "float_round (yv / h) = Finite q" "0 \<le> q" "q \<le> 16"
    by auto
  have quot: "int_div_float (gauge_value g) (Finite h) = Inr (Finite q)"
    using h_pos by (simp add: int_div_float_def yv(1) bind_err_Inr q(1))
  \<comment> \<open>\<open>(...) * 90\<close>\<close>
  have p_rng: "of_int 0 \<le> q * 90" "q * 90 \<le> of_int 1440"
    using q(2,3) by simp_all
  from float_round_between [OF _ _ p_rng] have
    p: "float_round (q * 90) = Finite (round_to_ulp (q * 90))"
      "0 \<le> round_to_ulp (q * 90)" "round_to_ulp (q * 90) \<le> 1440"
    by simp_all
  define p' where "p' = round_to_ulp (q * 90)"
  have prod: "float_mul_int (Finite q) 90 = Inr (Finite p')"
    by (simp add: float_mul_int_def float_of_int_small bind_err_Inr p(1) p'_def)
  \<comment> \<open>\<open>-1 * (...)\<close>\<close>
  have a_rng: "of_int (- 1440) \<le> - 1 * p'" "- 1 * p' \<le> of_int 0"
    using p(2,3) by (simp_all add: p'_def)
  from float_round_between [OF _ _ a_rng] have
    a: "float_round (- 1 * p') = Finite (round_to_ulp (- 1 * p'))"
      "- 1440 \<le> round_to_ulp (- 1 * p')" "round_to_ulp (- 1 * p') \<le> 0"
    by simp_all
  define a' where "a' = round_to_ulp (- 1 * p')"
  have neg: "int_mul_float (- 1) (Finite p') = Inr (Finite a')"
    using a(1) by (simp add: int_mul_float_def float_of_int_small bind_err_Inr a'_def)
  have arc: "Tachometer_arc_value g = Inr (Finite a')"
    using h(1) quot prod neg
    by (simp add: Tachometer_arc_value_def bind_err_Inr)
  \<comment> \<open>the clamp\<close>
  have fill: "\<exists>s. Tachometer_arc_fill g = Inr s \<and>
           (if a' < - 90 then s = PyInt (- 90 * 16)
            else \<exists>y. float_mul_int (Finite a') 16 = Inr (Finite y) \<and>
                   s = PyFloat (Finite y) \<and> - 90 * 16 \<le> y \<and> y \<le> 0)"
  proof (cases "a' < - 90")
    case True
    then show ?thesis
      by (simp add: Tachometer_arc_fill_def arc bind_err_Inr)
  next
    case False
    then have s_rng: "of_int (- 1440) \<le> a' * 16" "a' * 16 \<le> of_int 0"
      using a(3) by (simp_all add: a'_def)
    from float_round_between [OF _ _ s_rng] have
      s: "float_round (a' * 16) = Finite (round_to_ulp (a' * 16))"
        "- 1440 \<le> round_to_ulp (a' * 16)" "round_to_ulp (a' * 16) \<le> 0"
      by simp_all
    have "float_mul_int (Finite a') 16 = Inr (Finite (round_to_ulp (a' * 16)))"
      by (simp add: float_mul_int_def float_of_int_small bind_err_Inr s(1))
    then show ?thesis
      using False s(2,3)
      by (simp add: Tachometer_arc_fill_def arc bind_err_Inr)
  qed
  \<comment> \<open>the full gauge\<close>
  have full: "a' < - 90" if "gauge_value g = max_value g"
  proof -
    have yvm: "yv = ym" using that yv(1) ym(1) by simp
    have "h * (3 / 2) \<le> ym * (9 / 16) * (3 / 2)"
      using h(3) by simp
    also have "\<dots> \<le> ym"
      using ym(2) by simp
    finally have "3 / 2 \<le> yv / h"
      using h_pos yvm by (simp add: pos_le_divide_eq mult.commute)
    define t where "t = yv / h"
    have t32: "3 / 2 \<le> t"
      using \<open>3 / 2 \<le> yv / h\<close> by (simp only: t_def)
    have t16: "t \<le> 16"
      using t_rng(2) by (simp add: t_def)
    have t: "1 / 4 \<le> t" "t < 2 ^ 1023"
      using t32 t16 by simp_all
    from float_round_pos_normal [OF t] q(1)
    have "t * (1 - e) \<le> q"
      unfolding e_def t_def by auto
    moreover have "(3 / 2) * (7 / 8) \<le> t * (1 - e)"
      using t32 e by (intro mult_mono) simp_all
    ultimately have "21 / 16 \<le> q" by simp
    then have "of_int 118 \<le> q * 90" by simp
    then have "of_int 118 \<le> p'"
      unfolding p'_def by (intro round_to_ulp_ge_int) simp_all
    then have "- 1 * p' \<le> of_int (- 118)" by simp
    then have "a' \<le> of_int (- 118)"
      unfolding a'_def by (intro round_to_ulp_le_int) simp_all
    then show ?thesis by simp
  qed
  from fill obtain s where s: "Tachometer_arc_fill g = Inr s"
    "if a' < - 90 then s = PyInt (- 90 * 16)
     else \<exists>y. float_mul_int (Finite a') 16 = Inr (Finite y) \<and>
            s = PyFloat (Finite y) \<and> - 90 * 16 \<le> y \<and> y \<le> 0"
    by blast
  have "gauge_value g = max_value g \<longrightarrow> s = PyInt (- 90 * 16)"
    using full s(2) by simp
  moreover have "a' \<le> 0"
    using a(3) by (simp add: a'_def)
  ultimately show ?thesis
    using arc s by blast
qed

subsection \<open>Fifths of an integer\<close>

lemma ulp_le_quarter:
  assumes "x \<noteq> 0" "\<bar>x\<bar> < 2 ^ 51"
  shows "ulp x \<le> 1 / 4"
proof -
  have "\<bar>x\<bar> < 2 powi 51"
    using assms(2) by simp
  then have "binade x < 51"
    by (rule binade_less [OF assms(1)])
  then have "max (binade x) (- 1022) - 52 \<le> - 2"
    by simp
  then have "(2::rat) powi (max (binade x) (- 1022) - 52) \<le> 2 powi (- 2)"
    by (intro power_int_increasing) simp_all
  then show ?thesis
    by (simp add: ulp_def power_int_minus)
qed

lemma fifths_fraction:
  fixes n :: int
  assumes "\<not> 5 dvd n"
  shows "of_int (n div 5) + 1 / 5 \<le> (of_int n / 5 :: rat)"
    and "(of_int n / 5 :: rat) \<le> of_int (n div 5) + 4 / 5"
proof -
  have r: "1 \<le> n mod 5" "n mod 5 \<le> 4"
    using assms by presburger+
  have "(of_int (5 * (n div 5) + n mod 5) :: rat) = 5 * of_int (n div 5) + of_int (n mod 5)"
    by (simp only: of_int_add of_int_mult of_int_numeral)
  moreover have "(of_int (5 * (n div 5) + n mod 5) :: rat) = of_int n"
    by simp
  ultimately have "(of_int n :: rat) = 5 * of_int (n div 5) + of_int (n mod 5)"
    by (simp only:)
  then have eq: "(of_int n / 5 :: rat) = of_int (n div 5) + of_int (n mod 5) / 5"
    by (simp only:) (simp add: field_simps)
  have "(1::rat) \<le> of_int (n mod 5)" "(of_int (n mod 5) :: rat) \<le> 4"
    using r by simp_all
  then show "of_int (n div 5) + 1 / 5 \<le> (of_int n / 5 :: rat)"
    and "(of_int n / 5 :: rat) \<le> of_int (n div 5) + 4 / 5"
    by (simp_all add: eq)
qed

subsection \<open>The thresholds of the fuel gauge\<close>

lemma round_half_even_near:
  assumes "of_int N \<le> t" "t < of_int N + 1 / 2"
  shows "round_half_even t = N"
proof -
  have "\<lfloor>t\<rfloor> = N"
    using assms by (intro floor_unique) simp_all
  then show ?thesis
    using assms(2) by (simp add: round_half_even_def Let_def)
qed

lemma ulp_gt:
  assumes "x \<noteq> 0"
  shows "\<bar>x\<bar> / 2 ^ 53 < ulp x"
proof -
  have "\<bar>x\<bar> < 2 powi (binade x + 1)"
    by (rule binade_bounds(2) [OF assms])
  then have "\<bar>x\<bar> / 2 ^ 53 < 2 powi (binade x + 1) / 2 ^ 53"
    by (simp add: divide_strict_right_mono)
  also have "\<dots> = 2 powi (binade x + 1 - 53)"
  proof -
    have "(2::rat) powi (binade x + 1 - 53) = 2 powi (binade x + 1) / 2 powi 53"
      by (rule power_int_diff) simp
    then show ?thesis by simp
  qed
  also have "\<dots> \<le> 2 powi (max (binade x) (- 1022) - 52)"
    by (intro power_int_increasing) simp_all
  finally show ?thesis
    by (simp add: ulp_def)
qed

lemma round_to_ulp_int_up:
  assumes "0 < k" "k < 2 ^ 53" "of_int k \<le> x" "x \<le> of_int k * (1 + 1 / 2 ^ 54)"
  shows "round_to_ulp x = of_int k"
proof -
  have kr: "(0::rat) < of_int k" "(of_int k :: rat) \<le> 2 ^ 53 - 1"
  proof -
    show "(0::rat) < of_int k" using assms(1) by simp
    have "k \<le> 2 ^ 53 - 1" using assms(2) by simp
    then have "(of_int k :: rat) \<le> of_int (2 ^ 53 - 1)"
      by (simp only: of_int_le_iff)
    then show "(of_int k :: rat) \<le> 2 ^ 53 - 1" by simp
  qed
  have x0: "0 < x" using kr(1) assms(3) by simp
  have "x \<le> of_int k + of_int k / 2 ^ 54"
    using assms(4) by (simp add: field_simps)
  moreover have "(of_int k :: rat) / 2 ^ 54 < 1 / 2"
    using kr(2) by simp
  ultimately have xs: "\<bar>x\<bar> < 2 ^ 53"
    using kr(2) x0 by simp
  from ulp_small_inverse [of x] x0 xs obtain n :: nat where n: "1 / ulp x = 2 ^ n"
    by auto
  have u: "ulp x = 1 / 2 ^ n"
    using n ulp_pos [of x] by (simp add: field_simps)
  have d: "x - of_int k < ulp x / 2"
  proof -
    have "x - of_int k \<le> of_int k / 2 ^ 54"
      using assms(4) by (simp add: field_simps)
    also have "\<dots> \<le> x / 2 ^ 54"
      using assms(3) by (simp add: divide_right_mono)
    also have "\<dots> = (\<bar>x\<bar> / 2 ^ 53) / 2"
      using x0 by simp
    also have "\<dots> < ulp x / 2"
      using ulp_gt [of x] x0 by simp
    finally show ?thesis .
  qed
  have t: "x / ulp x = x * 2 ^ n"
    by (simp add: u)
  have lo: "of_int (k * 2 ^ n) \<le> x * 2 ^ n"
    using assms(3) by simp
  have hi: "x * 2 ^ n < of_int (k * 2 ^ n) + 1 / 2"
  proof -
    have "(x - of_int k) * 2 ^ n < (ulp x / 2) * 2 ^ n"
      using d by (simp add: mult_strict_right_mono)
    also have "\<dots> = 1 / 2"
      by (simp add: u)
    finally show ?thesis
      by (simp add: algebra_simps)
  qed
  have "round_half_even (x / ulp x) = k * 2 ^ n"
    unfolding t by (rule round_half_even_near [OF lo hi])
  then show ?thesis
    by (simp add: round_to_ulp_def u)
qed

lemma fifth_threshold:
  fixes m j :: int
  assumes "0 \<le> m" "m < 2 ^ 50" "0 < j" "j \<le> 2"
  shows "\<exists>t. float_round (of_int m * (of_int j / 5 * (1 + 1 / 2 ^ 54))) = Finite t \<and>
           (\<forall>v::int. t \<le> of_int v \<longleftrightarrow> j * m \<le> 5 * v)"
proof (cases "m = 0")
  case True
  then show ?thesis by (simp add: float_round_def)
next
  case False
  define n where "n = j * m"
  define x :: rat where "x = of_int n / 5 * (1 + 1 / 2 ^ 54)"
  have xe: "of_int m * (of_int j / 5 * (1 + 1 / 2 ^ 54)) = x"
    by (simp add: x_def n_def)
  have m: "0 < m" using False assms(1) by simp
  have n: "0 < n" "n < 2 ^ 51"
  proof -
    show "0 < n" using m assms(3) by (simp add: n_def)
    have "n \<le> 2 * m" using assms(4) m by (simp add: n_def mult_right_mono)
    then show "n < 2 ^ 51" using assms(2) by simp
  qed
  have nr: "(0::rat) < of_int n" "(of_int n :: rat) < 2 ^ 51"
  proof -
    show "(0::rat) < of_int n" using n(1) by simp
    have "(of_int n :: rat) < of_int (2 ^ 51)"
      using n(2) by (simp only: of_int_less_iff)
    then show "(of_int n :: rat) < 2 ^ 51" by simp
  qed
  show ?thesis
  proof (cases "5 dvd n")
    case True
    then obtain k where k: "n = 5 * k" ..
    have k0: "0 < k" "k < 2 ^ 53" using n k by simp_all
    have xk: "x = of_int k * (1 + 1 / 2 ^ 54)"
      by (simp add: x_def k)
    have kr: "(0::rat) < of_int k" using k0(1) by simp
    have le: "of_int k \<le> x"
      using kr by (simp add: xk)
    have r: "round_to_ulp x = of_int k"
      by (rule round_to_ulp_int_up [OF k0 le]) (simp add: xk)
    have x0: "x \<noteq> 0" using le kr by simp
    have "(of_int k :: rat) < of_int (2 ^ 53)"
      using k0(2) by (simp only: of_int_less_iff)
    then have "(of_int k :: rat) < 2 ^ 1024"
      by (simp add: order_less_trans [where y = "2 ^ 53"])
    then have "float_round x = Finite (of_int k)"
      using x0 kr by (simp add: float_round_def r Let_def)
    moreover have "\<forall>v::int. (of_int k :: rat) \<le> of_int v \<longleftrightarrow> j * m \<le> 5 * v"
      using k by (simp add: n_def [symmetric])
    ultimately show ?thesis
      unfolding xe by blast
  next
    case False
    define F where "F = n div 5"
    have fr: "of_int F + 1 / 5 \<le> (of_int n / 5 :: rat)" "(of_int n / 5 :: rat) \<le> of_int F + 4 / 5"
      unfolding F_def by (rule fifths_fraction [OF False])+
    have F: "0 \<le> F" "F < 2 ^ 51"
      using n by (simp_all add: F_def)
    have Fr: "(0::rat) \<le> of_int F"
      using F(1) by simp
    have xlo: "of_int F + 1 / 5 \<le> x"
    proof -
      have "of_int n / 5 \<le> x"
        using nr(1) by (simp add: x_def field_simps)
      then show ?thesis using fr(1) by simp
    qed
    have xhi: "x \<le> of_int F + 4 / 5 + 1 / 8"
    proof -
      have "x = of_int n / 5 + of_int n / 5 / 2 ^ 54"
        by (simp add: x_def field_simps)
      moreover have "(of_int n :: rat) / 5 / 2 ^ 54 \<le> 1 / 8"
        using nr(2) by simp
      ultimately show ?thesis using fr(2) by simp
    qed
    have b: "\<bar>F\<bar> < 2 ^ 53" "\<bar>F + 1\<bar> < 2 ^ 53"
      using F by simp_all
    have "of_int F \<le> x" "x \<le> of_int (F + 1)"
      using xlo xhi by simp_all
    from float_round_between [OF b this]
    have y: "float_round x = Finite (round_to_ulp x)" "round_to_ulp x \<le> of_int (F + 1)"
      by simp_all
    have x0: "x \<noteq> 0" using xlo Fr by simp
    have xs: "\<bar>x\<bar> < 2 ^ 51"
    proof -
      have "x \<le> of_int n / 5 + 1"
        using xhi fr(1) by linarith
      also have "\<dots> < 2 ^ 51"
      proof -
        have "(2::rat) ^ 51 = 2251799813685248" by simp
        with nr(2) show ?thesis by linarith
      qed
      finally show ?thesis using xlo Fr by simp
    qed
    have err: "\<bar>round_to_ulp x - x\<bar> \<le> 1 / 8"
      using round_to_ulp_error [of x] ulp_le_quarter [OF x0 xs] by simp
    have ylo: "of_int F < round_to_ulp x"
      using err xlo by (simp add: abs_if split: if_splits)
    have "(round_to_ulp x \<le> of_int v) = (j * m \<le> 5 * v)" for v :: int
    proof
      assume "round_to_ulp x \<le> of_int v"
      with ylo have "(of_int F :: rat) < of_int v" by simp
      then have "F < v" by (simp only: of_int_less_iff)
      then show "j * m \<le> 5 * v"
        unfolding n_def [symmetric] F_def by presburger
    next
      assume "j * m \<le> 5 * v"
      then have "F + 1 \<le> v"
        using False unfolding n_def [symmetric] F_def by presburger
      then have "(of_int (F + 1) :: rat) \<le> of_int v"
        by (simp only: of_int_le_iff)
      with y(2) show "round_to_ulp x \<le> of_int v" by simp
    qed
    with y(1) show ?thesis
      unfolding xe by blast
  qed
qed

lemma fuel_threshold:
  assumes "0 \<le> m" "m < 2 ^ 50"
  shows "\<exists>t. int_mul_float m (float_lit (2 / 5)) = Inr (Finite t) \<and>
           (\<forall>v::int. t \<le> of_int v \<longleftrightarrow> 2 * m \<le> 5 * v)"
    and "\<exists>t. int_mul_float m (float_lit (1 / 5)) = Inr (Finite t) \<and>
           (\<forall>v::int. t \<le> of_int v \<longleftrightarrow> m \<le> 5 * v)"
proof -
  have "\<bar>m\<bar> < 2 ^ 53" using assms by simp
  then have f: "float_of_int m = Inr (Finite (of_int m))"
    by (rule float_of_int_small)
  have c4: "(3602879701896397 / 9007199254740992 :: rat) = of_int 2 / 5 * (1 + 1 / 2 ^ 54)"
    by simp
  have c2: "(3602879701896397 / 18014398509481984 :: rat) = of_int 1 / 5 * (1 + 1 / 2 ^ 54)"
    by simp
  from fifth_threshold [OF assms, of 2]
  show "\<exists>t. int_mul_float m (float_lit (2 / 5)) = Inr (Finite t) \<and>
           (\<forall>v::int. t \<le> of_int v \<longleftrightarrow> 2 * m \<le> 5 * v)"
    by (simp only: int_mul_float_def f bind_err_Inr float_lit_2_5 float_mul.simps c4) simp
  from fifth_threshold [OF assms, of 1]
  show "\<exists>t. int_mul_float m (float_lit (1 / 5)) = Inr (Finite t) \<and>
           (\<forall>v::int. t \<le> of_int v \<longleftrightarrow> m \<le> 5 * v)"
    by (simp only: int_mul_float_def f bind_err_Inr float_lit_1_5 float_mul.simps c2) simp
qed

lemma fuel_pen_rule:
  assumes "0 \<le> max_value g" "max_value g < 2 ^ 50"
  shows "Fuel_Gauge_fill_pen g =
           Inr (Solid (if 2 * max_value g \<le> 5 * gauge_value g then QColor 0 255 0
                       else if max_value g \<le> 5 * gauge_value g then QColor 255 255 0
                       else if 0 \<le> gauge_value g then QColor 255 0 0
                       else QColor 255 0 255))"
proof -
  from fuel_threshold [OF assms] obtain t4 t2 where
    t4: "int_mul_float (max_value g) (float_lit (2 / 5)) = Inr (Finite t4)"
      "\<And>v::int. t4 \<le> of_int v \<longleftrightarrow> 2 * max_value g \<le> 5 * v"
    and t2: "int_mul_float (max_value g) (float_lit (1 / 5)) = Inr (Finite t2)"
      "\<And>v::int. t2 \<le> of_int v \<longleftrightarrow> max_value g \<le> 5 * v"
    by blast
  show ?thesis
    by (simp add: Fuel_Gauge_fill_pen_def t4 t2 bind_err_Inr)
qed

subsection \<open>The accuracy of the arc value\<close>

lemma ulp_le_near_normal:
  assumes "1 / 2 ^ 1024 \<le> \<bar>x\<bar>"
  shows "ulp x \<le> \<bar>x\<bar> / 2 ^ 50"
proof (cases "- 1022 \<le> binade x")
  case True
  have x: "x \<noteq> 0"
  proof -
    have "(0::rat) < 1 / 2 ^ 1024" by simp
    with assms have "0 < \<bar>x\<bar>" by linarith
    then show ?thesis by simp
  qed
  have "(2::rat) powi (- 1022) \<le> 2 powi binade x"
    using True by (intro power_int_increasing) simp_all
  also have "\<dots> \<le> \<bar>x\<bar>"
    by (rule binade_bounds(1) [OF x])
  finally have "ulp x \<le> \<bar>x\<bar> / 2 ^ 52"
    by (rule ulp_le_normal)
  also have "\<dots> \<le> \<bar>x\<bar> / 2 ^ 50"
    by (intro divide_left_mono) simp_all
  finally show ?thesis .
next
  case False
  then have "ulp x = 2 powi (- 1074)"
    by (simp add: ulp_def max_def)
  also have "\<dots> = 1 / 2 ^ 1024 / 2 ^ 50"
    by (simp add: power_int_minus)
  also have "\<dots> \<le> \<bar>x\<bar> / 2 ^ 50"
    using assms by (intro divide_right_mono) simp_all
  finally show ?thesis .
qed

lemma float_round_near_normal:
  assumes "1 / 2 ^ 1024 \<le> x" "x < 2 ^ 1023"
  shows "\<exists>y. float_round x = Finite y \<and> x * (1 - 1 / 2 ^ 51) \<le> y \<and> y \<le> x * (1 + 1 / 2 ^ 51)"
proof -
  have "(0::rat) < 1 / 2 ^ 1024" by simp
  with assms(1) have pos: "0 < x" by linarith
  have ax: "1 / 2 ^ 1024 \<le> \<bar>x\<bar>"
    using assms(1) pos by simp
  have "\<bar>round_to_ulp x - x\<bar> \<le> ulp x / 2"
    by (rule round_to_ulp_error)
  also have "\<dots> \<le> (\<bar>x\<bar> / 2 ^ 50) / 2"
    using ulp_le_near_normal [OF ax] by simp
  finally have err: "\<bar>round_to_ulp x - x\<bar> \<le> x / 2 ^ 51"
    using pos by simp
  have "x / 2 ^ 51 \<le> x"
    using pos by (simp add: field_simps)
  with err have "round_to_ulp x \<le> 2 * x"
    by linarith
  also have "\<dots> < 2 ^ 1024"
    using assms(2) by simp
  finally have fin: "round_to_ulp x < 2 ^ 1024" .
  have "0 \<le> round_to_ulp x"
    using pos by (intro round_to_ulp_nonneg) simp
  then have "float_round x = Finite (round_to_ulp x)"
    using pos fin by (simp add: float_round_def Let_def)
  with err show ?thesis
    by (auto simp add: algebra_simps abs_if split: if_splits)
qed

lemma float_round_pos_normal_low:
  assumes "4 / 2 ^ 1024 \<le> x" "x < 2 ^ 1023"
  shows "\<exists>y. float_round x = Finite y \<and> x * (1 - 1 / 2 ^ 53) \<le> y \<and> y \<le> x * (1 + 1 / 2 ^ 53)"
proof -
  have "(0::rat) < 4 / 2 ^ 1024" by simp
  with assms(1) have pos: "0 < x" by linarith
  have "(2::rat) powi (- 1022) = 4 / 2 ^ 1024"
    by (simp add: power_int_minus)
  then have lo: "2 powi (- 1022) \<le> \<bar>x\<bar>"
    using assms(1) pos by simp
  have hi: "\<bar>x\<bar> < 2 ^ 1023"
    using assms(2) pos by simp
  from float_round_normal [OF lo hi] pos
  have "float_round x = Finite (round_to_ulp x)" "\<bar>round_to_ulp x - x\<bar> \<le> x / 2 ^ 53"
    by simp_all
  then show ?thesis
    by (auto simp add: algebra_simps abs_if split: if_splits)
qed

lemma float_round_neg_normal_low:
  assumes "4 / 2 ^ 1024 \<le> x" "x < 2 ^ 1023"
  shows "\<exists>y. float_round (- x) = Finite (- y) \<and> x * (1 - 1 / 2 ^ 53) \<le> y \<and> y \<le> x * (1 + 1 / 2 ^ 53)"
proof -
  have "(0::rat) < 4 / 2 ^ 1024" by simp
  with assms(1) have pos: "0 < x" by linarith
  have "(2::rat) powi (- 1022) = 4 / 2 ^ 1024"
    by (simp add: power_int_minus)
  then have lo: "2 powi (- 1022) \<le> \<bar>- x\<bar>"
    using assms(1) pos by simp
  have hi: "\<bar>- x\<bar> < 2 ^ 1023"
    using assms(2) pos by simp
  from float_round_normal [OF lo hi] pos
  have r: "float_round (- x) = Finite (round_to_ulp (- x))" "\<bar>round_to_ulp (- x) - (- x)\<bar> \<le> x / 2 ^ 53"
    by simp_all
  have "float_round (- x) = Finite (- (- round_to_ulp (- x)))"
    using r(1) by simp
  moreover have "x * (1 - 1 / 2 ^ 53) \<le> - round_to_ulp (- x)" "- round_to_ulp (- x) \<le> x * (1 + 1 / 2 ^ 53)"
    using r(2) by (auto simp add: algebra_simps abs_if split: if_splits)
  ultimately show ?thesis by blast
qed

lemma rel_error_bounds:
  fixes e :: rat
  assumes "e = 1 / 2 ^ 53"
  shows "(1 + e) * (1 + e) * (1 + e) * (1 + 4 * e) / ((1 - e) * (1 - e)) \<le> 1 + 16 * e"
    and "1 - 16 * e \<le> (1 - e) * (1 - e) * (1 - e) * (1 - 4 * e) / ((1 + e) * (1 + e))"
  by (simp_all add: assms)

lemma arc_value_accurate:
  assumes m: "0 < max_value g"
    and v: "0 < gauge_value g" "gauge_value g \<le> max_value g"
    and ym: "float_of_int (max_value g) = Inr (Finite ym)"
      "of_int (max_value g) * (1 - 1 / 2 ^ 53) \<le> ym"
      "ym \<le> of_int (max_value g) * (1 + 1 / 2 ^ 53)" "ym < 2 ^ 1024"
    and yv: "float_of_int (gauge_value g) = Inr (Finite yv)"
      "of_int (gauge_value g) * (1 - 1 / 2 ^ 53) \<le> yv"
      "yv \<le> of_int (gauge_value g) * (1 + 1 / 2 ^ 53)"
  shows "\<exists>a. Tachometer_arc_value g = Inr (Finite (- a)) \<and>
           180 * of_int (gauge_value g) / of_int (max_value g) * (1 - 16 / 2 ^ 53) \<le> a \<and>
           a \<le> 180 * of_int (gauge_value g) / of_int (max_value g) * (1 + 16 / 2 ^ 53) \<and>
           4 / 2 ^ 1024 \<le> a"
proof -
  define e :: rat where "e = 1 / 2 ^ 53"
  define M :: rat where "M = of_int (max_value g)"
  define V :: rat where "V = of_int (gauge_value g)"
  define L :: rat where "L = 1 / 2 ^ 1024"
  have e: "0 < e" "e \<le> 1 / 64"
    by (simp_all add: e_def)
  have e4: "1 / 2 ^ 51 = 4 * e"
    by (simp add: e_def)
  have L: "0 < L"
    by (simp add: L_def)
  have L4: "4 * L = 4 / 2 ^ 1024"
    by (simp add: L_def)
  have M1: "1 \<le> M" and V1: "1 \<le> V" and VM: "V \<le> M"
    using m v by (simp_all add: M_def V_def)
  have ym_b: "M * (1 - e) \<le> ym" "ym \<le> M * (1 + e)"
    using ym(2,3) by (simp_all add: M_def e_def)
  have yv_b: "V * (1 - e) \<le> yv" "yv \<le> V * (1 + e)"
    using yv(2,3) by (simp_all add: V_def e_def)
  have ymL: "ym * L < 1"
    using ym(4) by (simp add: L_def)
  \<comment> \<open>\<open>self.max_value*.5\<close>\<close>
  have "M * (7 / 8) \<le> M * (1 - e)"
    using e M1 by (intro mult_left_mono) simp_all
  then have ym_M: "M * (7 / 8) \<le> ym"
    using ym_b(1) by simp
  then have ym78: "7 / 8 \<le> ym"
    using M1 by simp
  have "1 / 4 \<le> ym / 2" "ym / 2 < 2 ^ 1023"
    using ym78 ym(4) by simp_all
  from float_round_pos_normal [OF this] obtain h where
    h: "float_round (ym / 2) = Finite h" "ym / 2 * (1 - e) \<le> h" "h \<le> ym / 2 * (1 + e)"
    unfolding e_def by blast
  have half: "int_mul_float (max_value g) (float_lit (1 / 2)) = Inr (Finite h)"
    by (simp add: int_mul_float_def ym(1) bind_err_Inr float_lit_half h(1))
  have h_lo: "ym * (7 / 16) \<le> h"
  proof -
    have "ym / 2 * (7 / 8) \<le> ym / 2 * (1 - e)"
      using e ym78 by (intro mult_left_mono) simp_all
    then show ?thesis using h(2) by simp
  qed
  have h_hi: "h \<le> ym * (9 / 16)"
  proof -
    have "ym / 2 * (1 + e) \<le> ym / 2 * (9 / 8)"
      using e ym78 by (intro mult_left_mono) simp_all
    then show ?thesis using h(3) by simp
  qed
  have h_pos: "0 < h"
    using h_lo ym78 by simp
  have hD: "M / 2 * ((1 - e) * (1 - e)) \<le> h"
  proof -
    have "M / 2 * ((1 - e) * (1 - e)) = M * (1 - e) / 2 * (1 - e)"
      by simp
    also have "\<dots> \<le> ym / 2 * (1 - e)"
      using ym_b(1) e by (intro mult_right_mono divide_right_mono) simp_all
    also have "\<dots> \<le> h" by (rule h(2))
    finally show ?thesis .
  qed
  have hU: "h \<le> M / 2 * ((1 + e) * (1 + e))"
  proof -
    have "h \<le> ym / 2 * (1 + e)" by (rule h(3))
    also have "\<dots> \<le> M * (1 + e) / 2 * (1 + e)"
      using ym_b(2) e by (intro mult_right_mono divide_right_mono) simp_all
    also have "\<dots> = M / 2 * ((1 + e) * (1 + e))"
      by simp
    finally show ?thesis .
  qed
  have hD_pos: "0 < M / 2 * ((1 - e) * (1 - e))"
    using M1 e by simp
  \<comment> \<open>\<open>self.value / (...)\<close>\<close>
  have yv78: "7 / 8 \<le> yv"
  proof -
    have "V * (7 / 8) \<le> V * (1 - e)"
      using e V1 by (intro mult_left_mono) simp_all
    moreover have "7 / 8 \<le> V * (7 / 8)"
      using V1 by simp
    ultimately show ?thesis using yv_b(1) by linarith
  qed
  have yv98: "yv \<le> M * (9 / 8)"
  proof -
    have "V * (1 + e) \<le> V * (9 / 8)"
      using e V1 by (intro mult_left_mono) simp_all
    moreover have "V * (9 / 8) \<le> M * (9 / 8)"
      using VM by simp
    ultimately show ?thesis using yv_b(2) by linarith
  qed
  define x where "x = yv / h"
  have x_lo: "1 / 2 ^ 1024 \<le> x"
  proof -
    have "h * L \<le> ym * (9 / 16) * L"
      using h_hi L by (intro mult_right_mono) simp_all
    also have "\<dots> = ym * L * (9 / 16)" by simp
    also have "\<dots> \<le> 1 * (9 / 16)"
      using ymL by (intro mult_right_mono) simp_all
    finally have "L * h \<le> yv"
      using yv78 by (simp add: mult.commute)
    then have "L \<le> yv / h"
      using h_pos by (simp add: pos_le_divide_eq)
    then show ?thesis by (simp only: x_def L_def)
  qed
  have xL: "L \<le> x"
    using x_lo by (simp only: L_def)
  have x_16: "x \<le> 16"
  proof -
    have "yv \<le> 16 * h"
      using yv98 ym_M h_lo M1 by linarith
    then show ?thesis
      using h_pos by (simp add: x_def pos_divide_le_eq)
  qed
  have x_pos: "0 < x"
    using yv78 h_pos by (simp add: x_def)
  have x_hi: "x < 2 ^ 1023"
  proof -
    have "(16::rat) < 2 ^ 1023" by simp
    with x_16 show ?thesis by linarith
  qed
  from float_round_near_normal [OF x_lo x_hi] obtain q where
    q: "float_round x = Finite q" "x * (1 - 4 * e) \<le> q" "q \<le> x * (1 + 4 * e)"
    unfolding e4 by blast
  have quot: "int_div_float (gauge_value g) (Finite h) = Inr (Finite q)"
    using h_pos q(1) by (simp add: int_div_float_def yv(1) bind_err_Inr x_def)
  have x_up: "x \<le> V * (1 + e) / (M / 2 * ((1 - e) * (1 - e)))"
    unfolding x_def using yv_b(2) hD hD_pos V1 e
    by (intro frac_le) simp_all
  have x_dn: "V * (1 - e) / (M / 2 * ((1 + e) * (1 + e))) \<le> x"
    unfolding x_def using yv_b(1) hU h_pos yv78
    by (intro frac_le) simp_all
  \<comment> \<open>\<open>(...) * 90\<close>\<close>
  have q_lo: "x * (7 / 8) \<le> q"
  proof -
    have "x * (7 / 8) \<le> x * (1 - 4 * e)"
      using e x_pos by (intro mult_left_mono) simp_all
    then show ?thesis using q(2) by simp
  qed
  have q_hi: "q \<le> 32"
  proof -
    have "x * (1 + 4 * e) \<le> x * 2"
      using e x_pos by (intro mult_left_mono) simp_all
    then show ?thesis using q(3) x_16 by simp
  qed
  have q_pos: "0 < q"
    using q_lo x_pos by linarith
  have qL: "L * (7 / 8) \<le> q"
    using xL q_lo by linarith
  have "4 / 2 ^ 1024 \<le> q * 90" "q * 90 < 2 ^ 1023"
  proof -
    have "4 * L \<le> q * 90" using L qL by linarith
    then show "4 / 2 ^ 1024 \<le> q * 90" by (simp only: L4)
    have "(2880::rat) < 2 ^ 1023" by simp
    with q_hi show "q * 90 < 2 ^ 1023" by linarith
  qed
  from float_round_pos_normal_low [OF this] obtain p where
    p: "float_round (q * 90) = Finite p" "q * 90 * (1 - e) \<le> p" "p \<le> q * 90 * (1 + e)"
    unfolding e_def by blast
  have prod: "float_mul_int (Finite q) 90 = Inr (Finite p)"
    by (simp add: float_mul_int_def float_of_int_small bind_err_Inr p(1))
  \<comment> \<open>\<open>-1 * (...)\<close>\<close>
  have p_lo: "q * 90 * (7 / 8) \<le> p"
  proof -
    have "q * 90 * (7 / 8) \<le> q * 90 * (1 - e)"
      using e q_pos by (intro mult_left_mono) simp_all
    then show ?thesis using p(2) by simp
  qed
  have p_hi: "p \<le> q * 180"
  proof -
    have "q * 90 * (1 + e) \<le> q * 90 * 2"
      using e q_pos by (intro mult_left_mono) simp_all
    then show ?thesis using p(3) by simp
  qed
  have p_pos: "0 < p"
    using p_lo q_pos by linarith
  have "4 / 2 ^ 1024 \<le> p" "p < 2 ^ 1023"
  proof -
    have "4 * L \<le> p" using L qL p_lo by linarith
    then show "4 / 2 ^ 1024 \<le> p" by (simp only: L4)
    have "(5760::rat) < 2 ^ 1023" by simp
    with q_hi p_hi show "p < 2 ^ 1023" by linarith
  qed
  from float_round_neg_normal_low [OF this] obtain a where
    a: "float_round (- p) = Finite (- a)" "p * (1 - e) \<le> a" "a \<le> p * (1 + e)"
    unfolding e_def by blast
  have neg: "int_mul_float (- 1) (Finite p) = Inr (Finite (- a))"
    using a(1) by (simp add: int_mul_float_def float_of_int_small bind_err_Inr)
  have arc: "Tachometer_arc_value g = Inr (Finite (- a))"
    using half quot prod neg
    by (simp add: Tachometer_arc_value_def bind_err_Inr)
  \<comment> \<open>the accumulated error\<close>
  have MV: "0 < M" "0 < V" "0 \<le> 180 * V / M"
    using M1 V1 by simp_all
  have e1: "1 - e \<noteq> 0" "1 + e \<noteq> 0" "0 \<le> 1 + e" "0 \<le> 1 - e" "0 \<le> 1 + 4 * e" "0 \<le> 1 - 4 * e"
    using e by simp_all
  have up: "a \<le> 180 * V / M * (1 + 16 * e)"
  proof -
    have "a \<le> p * (1 + e)" by (rule a(3))
    also have "\<dots> \<le> q * 90 * (1 + e) * (1 + e)"
      using p(3) e1(3) by (intro mult_right_mono)
    also have "\<dots> \<le> x * (1 + 4 * e) * 90 * (1 + e) * (1 + e)"
      using q(3) e1(3) by (intro mult_right_mono) simp_all
    also have "\<dots> \<le> V * (1 + e) / (M / 2 * ((1 - e) * (1 - e))) * (1 + 4 * e) * 90 * (1 + e) * (1 + e)"
      using x_up e1(3,5) by (intro mult_right_mono) simp_all
    also have "\<dots> = 180 * V / M * ((1 + e) * (1 + e) * (1 + e) * (1 + 4 * e) / ((1 - e) * (1 - e)))"
      using e1(1) MV(1) by (simp add: field_simps)
    also have "\<dots> \<le> 180 * V / M * (1 + 16 * e)"
      using MV(3) rel_error_bounds(1) [OF e_def] by (intro mult_left_mono)
    finally show ?thesis .
  qed
  have dn: "180 * V / M * (1 - 16 * e) \<le> a"
  proof -
    have "180 * V / M * (1 - 16 * e)
        \<le> 180 * V / M * ((1 - e) * (1 - e) * (1 - e) * (1 - 4 * e) / ((1 + e) * (1 + e)))"
      using MV(3) rel_error_bounds(2) [OF e_def] by (intro mult_left_mono)
    also have "\<dots> = V * (1 - e) / (M / 2 * ((1 + e) * (1 + e))) * (1 - 4 * e) * 90 * (1 - e) * (1 - e)"
      using e1(2) MV(1) by (simp add: field_simps)
    also have "\<dots> \<le> x * (1 - 4 * e) * 90 * (1 - e) * (1 - e)"
      using x_dn e1(4,6) by (intro mult_right_mono) simp_all
    also have "\<dots> \<le> q * 90 * (1 - e) * (1 - e)"
      using q(2) e1(4) by (intro mult_right_mono) simp_all
    also have "\<dots> \<le> p * (1 - e)"
      using p(2) e1(4) by (intro mult_right_mono)
    also have "\<dots> \<le> a" by (rule a(2))
    finally show ?thesis .
  qed
  have aL: "4 / 2 ^ 1024 \<le> a"
  proof -
    have "p * (7 / 8) \<le> p * (1 - e)"
      using e p_pos by (intro mult_left_mono) simp_all
    then have "p * (7 / 8) \<le> a" using a(2) by simp
    then have "4 * L \<le> a" using L qL p_lo by linarith
    then show ?thesis by (simp only: L4)
  qed
  have "(16::rat) / 2 ^ 53 = 16 * e"
    by (simp add: e_def)
  with up dn aL arc show ?thesis
    unfolding M_def V_def by (simp only:) blast
qed

lemma arc_value_zero:
  assumes "gauge_value g = 0"
    and "int_mul_float (max_value g) (float_lit (5 / 10)) = Inr (Finite h)" "h \<noteq> 0"
  shows "Tachometer_arc_value g = Inr (Finite 0)"
proof -
  have half: "int_mul_float (max_value g) (float_lit (1 / 2)) = Inr (Finite h)"
    using assms(2) by simp
  have z: "float_of_int 0 = Inr (Finite 0)"
    using float_of_int_small [of 0] by simp
  have quot: "int_div_float 0 (Finite h) = Inr (Finite 0)"
    using assms(3) by (simp add: int_div_float_def z bind_err_Inr float_round_def)
  have prod: "float_mul_int (Finite 0) 90 = Inr (Finite 0)"
    by (simp add: float_mul_int_def float_of_int_small bind_err_Inr float_round_def)
  have neg: "int_mul_float (- 1) (Finite 0) = Inr (Finite 0)"
    by (simp add: int_mul_float_def float_of_int_small bind_err_Inr float_round_def)
  show ?thesis
    by (simp add: Tachometer_arc_value_def assms(1) half quot prod neg bind_err_Inr)
qed

lemma span_accurate:
  assumes "a = 0 \<or> (4 / 2 ^ 1024 \<le> - a \<and> - a \<le> 90)"
  shows "\<exists>y. float_mul_int (Finite a) 16 = Inr (Finite y) \<and>
           \<bar>y - a * 16\<bar> \<le> \<bar>a * 16\<bar> / 2 ^ 53"
proof -
  have m: "float_mul_int (Finite a) 16 = Inr (float_round (a * 16))"
    by (simp add: float_mul_int_def float_of_int_small bind_err_Inr)
  from assms show ?thesis
  proof
    assume "a = 0"
    then show ?thesis
      using m by (simp add: float_round_def)
  next
    assume a: "4 / 2 ^ 1024 \<le> - a \<and> - a \<le> 90"
    have "(0::rat) < 4 / 2 ^ 1024" by simp
    with a have neg: "a < 0" by linarith
    have "(2::rat) powi (- 1022) = 4 / 2 ^ 1024"
      by (simp add: power_int_minus)
    moreover have "- a \<le> \<bar>a * 16\<bar>"
      using neg by (simp add: abs_if)
    ultimately have lo: "2 powi (- 1022) \<le> \<bar>a * 16\<bar>"
      using a by linarith
    have "\<bar>a * 16\<bar> \<le> 1440"
      using a neg by (simp add: abs_if)
    moreover have "(1440::rat) < 2 ^ 1023" by simp
    ultimately have hi: "\<bar>a * 16\<bar> < 2 ^ 1023" by linarith
    from float_round_normal [OF lo hi] show ?thesis
      by (simp only: m) blast
  qed
qed

section \<open>Properties of paintEvent\<close>

subsection \<open>The arc fill of the tachometer\<close>

text \<open>
  C5. Take a tachometer with \<open>max_value > 0\<close> and a value in \<open>0..max_value\<close>.
  Then \<^verbatim>\<open>arc_value = -1 * ((value / (max_value*.5)) * 90)\<close> is computed without an
  exception and is a finite float that is not positive. It is the exact number
  \<open>-(value / (max_value * 0.5)) * 90\<close> up to a relative error of \<open>2^-49\<close>, which is
  what the roundings of the float operations add up to. The span handed to
  \<^verbatim>\<open>drawArc\<close> is \<^verbatim>\<open>-90 * 16\<close> when \<^verbatim>\<open>arc_value < -90\<close> and the float
  \<^verbatim>\<open>arc_value * 16\<close> otherwise, which is \<open>arc_value * 16\<close> up to a relative error
  of \<open>2^-53\<close>; in both cases it lies between \<open>-90 * 16\<close> and 0 sixteenths of a
  degree: the arc never turns by more than 90 degrees. With \<open>value = max_value\<close> the
  span is exactly \<open>-90 * 16\<close>, that is -90 degrees. The one other outcome is the
  OverflowError that Python raises when an integer does not fit a float; it needs
  \<open>max_value \<ge> 2^1023\<close>. With \<open>max_value = 5000\<close> the span is \<open>-90 * 16\<close> at the
  value 5000, \<open>-45 * 16\<close> at 1250 and 0 at 0.
\<close>

theorem tachometer_arc_clamped:
  assumes "0 < max_value g"
    and "0 \<le> gauge_value g" and "gauge_value g \<le> max_value g"
  shows "(2 ^ 1023 \<le> max_value g \<and> Tachometer_arc_fill g = Inl OverflowError) \<or>
         (\<exists>a s. Tachometer_arc_value g = Inr (Finite a) \<and> a \<le> 0 \<and>
           \<bar>a - (- (of_int (gauge_value g) / (of_int (max_value g) * (1 / 2)) * 90))\<bar>
             \<le> of_int (gauge_value g) / (of_int (max_value g) * (1 / 2)) * 90 / 2 ^ 49 \<and>
           Tachometer_arc_fill g = Inr s \<and>
           (if a < - 90 then s = PyInt (- 90 * 16)
            else \<exists>y. float_mul_int (Finite a) 16 = Inr (Finite y) \<and>
                   s = PyFloat (Finite y) \<and> - 90 * 16 \<le> y \<and> y \<le> 0 \<and>
                   \<bar>y - a * 16\<bar> \<le> \<bar>a * 16\<bar> / 2 ^ 53) \<and>
           (gauge_value g = max_value g \<longrightarrow> s = PyInt (- 90 * 16)))"
proof -
  define e :: rat where "e = 1 / 2 ^ 53"
  define t :: rat where "t = of_int (gauge_value g) / (of_int (max_value g) * (1 / 2)) * 90"
  have e: "0 < e" "e \<le> 1 / 8"
    by (simp_all add: e_def)
  have mr: "(1::rat) \<le> of_int (max_value g)"
    using assms(1) by simp
  have m0: "0 \<le> max_value g"
    using assms(1) by simp
  have t: "t = 180 * of_int (gauge_value g) / of_int (max_value g)"
    by (simp add: t_def)
  from float_of_int_nonneg_cases [OF m0]
  consider (overflow) "2 ^ 1023 \<le> max_value g" "float_of_int (max_value g) = Inl OverflowError"
    | (finite) ym where "float_of_int (max_value g) = Inr (Finite ym)"
        "of_int (max_value g) * (1 - e) \<le> ym" "ym \<le> of_int (max_value g) * (1 + e)" "ym < 2 ^ 1024"
    unfolding e_def by blast
  then show ?thesis
  proof cases
    case overflow
    then show ?thesis
      by (simp add: Tachometer_arc_fill_def Tachometer_arc_value_def int_mul_float_def bind_err_Inl)
  next
    case (finite ym)
    have "of_int (max_value g) * (7 / 8 :: rat) \<le> of_int (max_value g) * (1 - e)"
      using e mr by (intro mult_left_mono) simp_all
    then have ym_m: "of_int (max_value g) * (7 / 8) \<le> ym"
      using finite(2) by simp
    then have ym_pos: "7 / 8 \<le> ym"
      using mr by simp
    from half_max_value [OF finite(1) ym_pos finite(4)] obtain h where
      h: "int_mul_float (max_value g) (float_lit (5 / 10)) = Inr (Finite h)"
        "ym * (7 / 16) \<le> h" "h \<le> ym * (9 / 16)"
      by blast
    have h0: "h \<noteq> 0"
      using h(2) ym_pos by auto
    from float_of_int_nonneg_cases [OF assms(2)]
    consider (overflow') "2 ^ 1023 \<le> gauge_value g" "float_of_int (gauge_value g) = Inl OverflowError"
      | (finite') yv where "float_of_int (gauge_value g) = Inr (Finite yv)"
          "of_int (gauge_value g) * (1 - e) \<le> yv" "yv \<le> of_int (gauge_value g) * (1 + e)"
      unfolding e_def by blast
    then show ?thesis
    proof cases
      case overflow'
      then have "2 ^ 1023 \<le> max_value g"
        using assms(3) by simp
      moreover have "Tachometer_arc_fill g = Inl OverflowError"
        using h(1) overflow'(2)
        by (simp add: Tachometer_arc_fill_def Tachometer_arc_value_def int_div_float_def
            bind_err_Inl bind_err_Inr)
      ultimately show ?thesis by simp
    next
      case (finite' yv)
      have vr: "(0::rat) \<le> of_int (gauge_value g)"
        using assms(2) by simp
      have "0 \<le> of_int (gauge_value g) * (1 - e)"
        using e vr by simp
      then have yv0: "0 \<le> yv"
        using finite'(2) by simp
      have "of_int (gauge_value g) * (1 + e) \<le> of_int (gauge_value g) * (9 / 8 :: rat)"
        using e vr by (intro mult_left_mono) simp_all
      then have yv_hi: "yv \<le> of_int (gauge_value g) * (9 / 8)"
        using finite'(3) by simp
      from arc_fill_from_floats [OF assms(1,3) finite(1) ym_pos ym_m h finite'(1) yv0 yv_hi]
      obtain a s where a: "Tachometer_arc_value g = Inr (Finite a)" "a \<le> 0"
        and s: "Tachometer_arc_fill g = Inr s"
        and c: "if a < - 90 then s = PyInt (- 90 * 16)
            else \<exists>y. float_mul_int (Finite a) 16 = Inr (Finite y) \<and>
                   s = PyFloat (Finite y) \<and> - 90 * 16 \<le> y \<and> y \<le> 0"
        and f: "gauge_value g = max_value g \<longrightarrow> s = PyInt (- 90 * 16)"
        by blast
      have acc: "\<bar>a - (- t)\<bar> \<le> t / 2 ^ 49 \<and> (a = 0 \<or> 4 / 2 ^ 1024 \<le> - a)"
      proof (cases "gauge_value g = 0")
        case True
        from arc_value_zero [OF True h(1) h0] a(1) have "a = 0" by simp
        then show ?thesis using True by (simp add: t)
      next
        case False
        then have v: "0 < gauge_value g" using assms(2) by simp
        from arc_value_accurate [OF assms(1) v assms(3) finite(1)
            finite(2,3) [unfolded e_def] finite(4) finite'(1) finite'(2,3) [unfolded e_def]]
        obtain b where b: "Tachometer_arc_value g = Inr (Finite (- b))"
          "t * (1 - 16 / 2 ^ 53) \<le> b" "b \<le> t * (1 + 16 / 2 ^ 53)" "4 / 2 ^ 1024 \<le> b"
          unfolding t by blast
        have ab: "b = - a"
          using a(1) b(1) by simp
        define d where "d = t / 2 ^ 49"
        have "t * (1 - 16 / 2 ^ 53) = t - d" "t * (1 + 16 / 2 ^ 53) = t + d"
          by (simp_all add: d_def algebra_simps)
        with b(2,3) have "t - d \<le> - a" "- a \<le> t + d"
          unfolding ab by simp_all
        then have "\<bar>a - (- t)\<bar> \<le> d"
          by linarith
        with b(4) ab show ?thesis by (simp add: d_def)
      qed
      have c': "if a < - 90 then s = PyInt (- 90 * 16)
            else \<exists>y. float_mul_int (Finite a) 16 = Inr (Finite y) \<and>
                   s = PyFloat (Finite y) \<and> - 90 * 16 \<le> y \<and> y \<le> 0 \<and>
                   \<bar>y - a * 16\<bar> \<le> \<bar>a * 16\<bar> / 2 ^ 53"
      proof (cases "a < - 90")
        case True
        with c show ?thesis by simp
      next
        case False
        with c obtain y where y: "float_mul_int (Finite a) 16 = Inr (Finite y)"
          "s = PyFloat (Finite y)" "- 90 * 16 \<le> y" "y \<le> 0"
          by auto
        from acc False have "a = 0 \<or> (4 / 2 ^ 1024 \<le> - a \<and> - a \<le> 90)"
          by auto
        from span_accurate [OF this] y(1) have "\<bar>y - a * 16\<bar> \<le> \<bar>a * 16\<bar> / 2 ^ 53"
          by auto
        with y False show ?thesis by simp
      qed
      from a s c' f acc show ?thesis
        unfolding t_def by blast
    qed
  qed
qed

theorem tachometer_arc_clamped_witness:
  "(\<exists>a. Tachometer_arc_value \<lparr>console = [], redraws = 0, gauge_value = 5000, max_value = 5000\<rparr>
        = Inr (Finite a) \<and> a < - 90) \<and>
   Tachometer_arc_fill \<lparr>console = [], redraws = 0, gauge_value = 5000, max_value = 5000\<rparr>
     = Inr (PyInt (- 1440)) \<and>
   (\<exists>a. Tachometer_arc_value \<lparr>console = [], redraws = 0, gauge_value = 1250, max_value = 5000\<rparr>
        = Inr (Finite a) \<and> \<bar>a - (- 45)\<bar> \<le> 45 / 2 ^ 49) \<and>
   Tachometer_arc_fill \<lparr>console = [], redraws = 0, gauge_value = 1250, max_value = 5000\<rparr>
     = Inr (PyFloat (Finite (- 720))) \<and>
   Tachometer_arc_fill \<lparr>console = [], redraws = 0, gauge_value = 0, max_value = 5000\<rparr>
     = Inr (PyFloat (Finite 0))"
proof (intro conjI)
  let ?g = "\<lparr>console = [], redraws = 0, gauge_value = 5000, max_value = 5000\<rparr>"
  let ?q = "\<lparr>console = [], redraws = 0, gauge_value = 1250, max_value = 5000\<rparr>"
  let ?z = "\<lparr>console = [], redraws = 0, gauge_value = 0, max_value = 5000\<rparr>"
  have h: "0 < max_value ?g" "0 \<le> gauge_value ?g" "gauge_value ?g \<le> max_value ?g"
    by simp_all
  have small: "\<not> 2 ^ 1023 \<le> max_value ?g"
    by simp
  from tachometer_arc_clamped [OF h] small obtain a s where
    a: "Tachometer_arc_value ?g = Inr (Finite a)" and s: "Tachometer_arc_fill ?g = Inr s"
    and c: "if a < - 90 then s = PyInt (- 90 * 16)
            else \<exists>y. float_mul_int (Finite a) 16 = Inr (Finite y) \<and>
                   s = PyFloat (Finite y) \<and> - 90 * 16 \<le> y \<and> y \<le> 0 \<and>
                   \<bar>y - a * 16\<bar> \<le> \<bar>a * 16\<bar> / 2 ^ 53"
    and f: "gauge_value ?g = max_value ?g \<longrightarrow> s = PyInt (- 90 * 16)"
    by blast
  from f have s': "s = PyInt (- 1440)" by simp
  with c have "a < - 90" by (simp split: if_splits)
  with a show "\<exists>a. Tachometer_arc_value ?g = Inr (Finite a) \<and> a < - 90" by blast
  from s s' show "Tachometer_arc_fill ?g = Inr (PyInt (- 1440))" by simp
  have hq: "0 < max_value ?q" "0 \<le> gauge_value ?q" "gauge_value ?q \<le> max_value ?q"
    by simp_all
  have smallq: "\<not> 2 ^ 1023 \<le> max_value ?q"
    by simp
  from tachometer_arc_clamped [OF hq] smallq obtain b where
    "Tachometer_arc_value ?q = Inr (Finite b)"
    "\<bar>b - (- (of_int (gauge_value ?q) / (of_int (max_value ?q) * (1 / 2)) * 90))\<bar>
       \<le> of_int (gauge_value ?q) / (of_int (max_value ?q) * (1 / 2)) * 90 / 2 ^ 49"
    by blast
  then show "\<exists>a. Tachometer_arc_value ?q = Inr (Finite a) \<and> \<bar>a - (- 45)\<bar> \<le> 45 / 2 ^ 49"
    by simp
  have r: "float_round 2500 = Finite 2500" "float_round 45 = Finite 45"
    "float_round (- 45) = Finite (- 45)" "float_round (- 720) = Finite (- 720)"
    using float_round_of_int [of 2500] float_round_of_int [of 45]
      float_round_of_int [of "- 45"] float_round_of_int [of "- 720"]
    by simp_all
  have hf: "float_round (1 / 2) = Finite (1 / 2)"
    using float_lit_half by (simp add: float_lit_def)
  have "Tachometer_arc_value ?q = Inr (Finite (- 45))"
    by (simp add: Tachometer_arc_value_def int_mul_float_def int_div_float_def float_mul_int_def
        float_of_int_small bind_err_Inr float_lit_half r hf)
  then show "Tachometer_arc_fill ?q = Inr (PyFloat (Finite (- 720)))"
    by (simp add: Tachometer_arc_fill_def float_mul_int_def float_of_int_small bind_err_Inr r)
  have hz: "int_mul_float (max_value ?z) (float_lit (5 / 10)) = Inr (Finite 2500)"
    by (simp add: int_mul_float_def float_of_int_small bind_err_Inr float_lit_half r)
  have "Tachometer_arc_value ?z = Inr (Finite 0)"
    by (rule arc_value_zero [OF _ hz]) simp_all
  then show "Tachometer_arc_fill ?z = Inr (PyFloat (Finite 0))"
    by (simp add: Tachometer_arc_fill_def float_mul_int_def float_of_int_small bind_err_Inr
        float_round_def)
qed

subsection \<open>The colours of the value fill\<close>

text \<open>
  C6 asks that for every gauge the colours of the value fill are the same at any two
  values. The fuel gauge picks the colour of its fill from the value: with
  \<open>max_value = 100\<close> it is red at the value 0 and green at the value 100.
\<close>

theorem fill_colours_counterexample:
  "Fuel_Gauge_fill_pen \<lparr>console = [], redraws = 0, gauge_value = 0, max_value = 100\<rparr>
     = Inr (Solid (QColor 255 0 0)) \<and>
   Fuel_Gauge_fill_pen \<lparr>console = [], redraws = 0, gauge_value = 100, max_value = 100\<rparr>
     = Inr (Solid (QColor 0 255 0))"
  by (simp add: fuel_pen_100)

text \<open>
  C6, amended. The temperature gauge fills with a gradient whose stops are green at 1,
  yellow at 0.2 and red at 0, the tachometer with the mirrored one, green at 0, yellow
  at 0.8 and red at 1; neither depends on the value. The fuel gauge fills with one
  colour that depends on the value: green when \<^verbatim>\<open>value >= max_value*.4\<close>, else yellow
  when \<^verbatim>\<open>value >= max_value*.2\<close>, else red when \<^verbatim>\<open>value >= 0\<close>, else magenta. For
  \<open>0 \<le> max_value < 2^50\<close> the two float thresholds separate the integers exactly as
  the exact products do: the fill is green when \<open>5 * value \<ge> 2 * max_value\<close>, else
  yellow when \<open>5 * value \<ge> max_value\<close>. With \<open>max_value = 100\<close> it is green from 40,
  yellow from 20 and red from 0; with \<open>max_value = 200\<close> it is green from 80 and
  yellow from 40.
\<close>

theorem fill_colours:
  "Temp_Gauge_fill_pen g =
     Inr (QLinearGradient [(Finite 1, Qt_green), (float_lit (2 / 10), Qt_yellow), (Finite 0, Qt_red)]) \<and>
   Temp_Gauge_fill_pen (g\<lparr>gauge_value := v\<rparr>) = Temp_Gauge_fill_pen g \<and>
   Tachometer_fill_pen g =
     Inr (QLinearGradient [(Finite 0, Qt_green), (float_lit (8 / 10), Qt_yellow), (Finite 1, Qt_red)]) \<and>
   Tachometer_fill_pen (g\<lparr>gauge_value := v\<rparr>) = Tachometer_fill_pen g \<and>
   (0 \<le> max_value g \<and> max_value g < 2 ^ 50 \<longrightarrow>
      Fuel_Gauge_fill_pen g =
        Inr (Solid (if 2 * max_value g \<le> 5 * gauge_value g then QColor 0 255 0
                    else if max_value g \<le> 5 * gauge_value g then QColor 255 255 0
                    else if 0 \<le> gauge_value g then QColor 255 0 0
                    else QColor 255 0 255)))"
  using fuel_pen_rule [of g]
  by (simp add: Temp_Gauge_fill_pen_def Tachometer_fill_pen_def)

theorem fill_colours_witness:
  "Fuel_Gauge_fill_pen \<lparr>console = [], redraws = 0, gauge_value = 25, max_value = 100\<rparr>
     = Inr (Solid (QColor 255 255 0)) \<and>
   Fuel_Gauge_fill_pen \<lparr>console = [], redraws = 0, gauge_value = 50, max_value = 200\<rparr>
     = Inr (Solid (QColor 255 255 0)) \<and>
   Fuel_Gauge_fill_pen \<lparr>console = [], redraws = 0, gauge_value = 80, max_value = 200\<rparr>
     = Inr (Solid (QColor 0 255 0)) \<and>
   Fuel_Gauge_fill_pen \<lparr>console = [], redraws = 0, gauge_value = 39, max_value = 200\<rparr>
     = Inr (Solid (QColor 255 0 0)) \<and>
   Temp_Gauge_fill_pen \<lparr>console = [], redraws = 0, gauge_value = 25, max_value = 100\<rparr>
     = Temp_Gauge_fill_pen \<lparr>console = [], redraws = 0, gauge_value = 90, max_value = 100\<rparr>"
proof (intro conjI)
  show "Fuel_Gauge_fill_pen \<lparr>console = [], redraws = 0, gauge_value = 25, max_value = 100\<rparr>
     = Inr (Solid (QColor 255 255 0))"
    using fill_colours [of "\<lparr>console = [], redraws = 0, gauge_value = 25, max_value = 100\<rparr>" 0]
    by simp
  show "Fuel_Gauge_fill_pen \<lparr>console = [], redraws = 0, gauge_value = 50, max_value = 200\<rparr>
     = Inr (Solid (QColor 255 255 0))"
    using fill_colours [of "\<lparr>console = [], redraws = 0, gauge_value = 50, max_value = 200\<rparr>" 0]
    by simp
  show "Fuel_Gauge_fill_pen \<lparr>console = [], redraws = 0, gauge_value = 80, max_value = 200\<rparr>
     = Inr (Solid (QColor 0 255 0))"
    using fill_colours [of "\<lparr>console = [], redraws = 0, gauge_value = 80, max_value = 200\<rparr>" 0]
    by simp
  show "Fuel_Gauge_fill_pen \<lparr>console = [], redraws = 0, gauge_value = 39, max_value = 200\<rparr>
     = Inr (Solid (QColor 255 0 0))"
    using fill_colours [of "\<lparr>console = [], redraws = 0, gauge_value = 39, max_value = 200\<rparr>" 0]
    by simp
  show "Temp_Gauge_fill_pen \<lparr>console = [], redraws = 0, gauge_value = 25, max_value = 100\<rparr>
     = Temp_Gauge_fill_pen \<lparr>console = [], redraws = 0, gauge_value = 90, max_value = 100\<rparr>"
    using fill_colours [of "\<lparr>console = [], redraws = 0, gauge_value = 25, max_value = 100\<rparr>" 90]
    by simp
qed

subsection \<open>The tick labels\<close>

lemma int_true_div_5_truncates:
  assumes "\<bar>n\<bar> < 2 ^ 53"
  shows "bind_err (int_true_div n 5) int_of_float =
           Inr (if 0 \<le> n then n div 5 else - ((- n) div 5))"
proof -
  define x :: rat where "x = of_int n / 5"
  define y where "y = round_to_ulp x"
  have fl: "\<lfloor>x\<rfloor> = n div 5"
    unfolding x_def using floor_divide_of_int_eq [of n 5, where ?'a = rat] by simp
  have xn: "\<bar>x\<bar> \<le> of_int \<bar>n\<bar>"
    by (simp add: x_def)
  have nb: "(of_int \<bar>n\<bar> :: rat) < 2 ^ 53"
    using assms by (metis of_int_less_iff of_int_numeral of_int_power)
  have lo: "\<bar>\<lfloor>x\<rfloor>\<bar> < 2 ^ 53"
  proof -
    have "\<bar>n div 5\<bar> \<le> \<bar>n\<bar>" by presburger
    then show ?thesis using assms fl by simp
  qed
  have hi: "\<bar>\<lceil>x\<rceil>\<bar> < 2 ^ 53"
  proof -
    have "\<lceil>x\<rceil> = - ((- n) div 5)"
      unfolding x_def ceiling_def
      using floor_divide_of_int_eq [of "- n" 5, where ?'a = rat] by simp
    moreover have "\<bar>- ((- n) div 5)\<bar> \<le> \<bar>n\<bar>" by presburger
    ultimately show ?thesis using assms by simp
  qed
  have btw: "float_round x = Finite y" "of_int \<lfloor>x\<rfloor> \<le> y" "y \<le> of_int \<lceil>x\<rceil>"
    unfolding y_def by (rule float_round_between [OF lo hi]; simp)+
  have res: "int_true_div n 5 = Inr (Finite y)"
    using btw(1) by (simp add: int_true_div_def x_def)
  have floors: "\<lfloor>y\<rfloor> = \<lfloor>x\<rfloor> \<and> \<lceil>y\<rceil> = \<lceil>x\<rceil>"
  proof (cases "5 dvd n")
    case True
    then obtain k where "n = 5 * k" ..
    then have "x = of_int k" by (simp add: x_def)
    with btw(2,3) have "y = of_int k" by simp
    with \<open>x = of_int k\<close> show ?thesis by simp
  next
    case False
    have x0: "x \<noteq> 0"
      using False by (auto simp add: x_def)
    have xs: "\<bar>x\<bar> < 2 ^ 51"
    proof -
      have "\<bar>x\<bar> = of_int \<bar>n\<bar> / 5" by (simp add: x_def)
      also have "\<dots> < 2 ^ 53 / 5" using nb by (simp add: divide_strict_right_mono)
      also have "\<dots> < (2 ^ 51 :: rat)" by simp
      finally show ?thesis .
    qed
    have err: "\<bar>y - x\<bar> \<le> 1 / 8"
      using round_to_ulp_error [of x] ulp_le_quarter [OF x0 xs] by (simp add: y_def)
    have fr: "of_int \<lfloor>x\<rfloor> + 1 / 5 \<le> x" "x \<le> of_int \<lfloor>x\<rfloor> + 4 / 5"
      using fifths_fraction [OF False] by (simp_all add: x_def [symmetric] fl)
    have ce: "\<lceil>x\<rceil> = \<lfloor>x\<rfloor> + 1"
      using fr by (intro ceiling_unique) simp_all
    have "\<lfloor>y\<rfloor> = \<lfloor>x\<rfloor>"
      using btw(2) err fr by (intro floor_unique) (simp_all add: abs_if split: if_splits)
    moreover have "\<lceil>y\<rceil> = \<lfloor>x\<rfloor> + 1"
      using btw(3) err fr ce by (intro ceiling_unique) (simp_all add: abs_if split: if_splits)
    ultimately show ?thesis using ce by simp
  qed
  have ce: "\<lceil>x\<rceil> = - ((- n) div 5)"
    unfolding x_def ceiling_def
    using floor_divide_of_int_eq [of "- n" 5, where ?'a = rat] by simp
  show ?thesis
  proof (cases "0 \<le> n")
    case True
    then have "0 \<le> x" by (simp add: x_def)
    then have "0 \<le> y" unfolding y_def by (rule round_to_ulp_nonneg)
    then show ?thesis
      using True res floors fl by (simp add: bind_err_Inr)
  next
    case False
    then have "x \<le> 0" by (simp add: x_def)
    then have y0: "y \<le> 0" unfolding y_def by (rule round_to_ulp_nonpos)
    have "(if 0 \<le> y then \<lfloor>y\<rfloor> else \<lceil>y\<rceil>) = \<lceil>y\<rceil>"
      using y0 by (cases "y = 0") simp_all
    then show ?thesis
      using False res floors ce by (simp add: bind_err_Inr)
  qed
qed

lemma int_true_div_5_cases:
  "int_true_div n 5 = Inl OverflowError \<or> (\<exists>y. int_true_div n 5 = Inr (Finite y))"
  by (cases "float_round (of_int n / 5)") (simp_all add: int_true_div_def)

lemma tick_label_cases:
  "tick_label m k = Inl OverflowError \<or>
   (\<exists>y. int_true_div (m * k) 5 = Inr (Finite y) \<and>
        tick_label m k = Inr (if 0 \<le> y then \<lfloor>y\<rfloor> else \<lceil>y\<rceil>))"
  using int_true_div_5_cases [of "m * k"]
  by (auto simp add: tick_label_def bind_err_Inl bind_err_Inr)

lemma tick_labels_exact:
  assumes "\<bar>max_value g\<bar> < 2 ^ 50"
  shows "tick_labels g =
           Inr [max_value g,
                sgn (max_value g) * ((\<bar>max_value g\<bar> * 4) div 5),
                sgn (max_value g) * ((\<bar>max_value g\<bar> * 3) div 5),
                sgn (max_value g) * ((\<bar>max_value g\<bar> * 2) div 5),
                sgn (max_value g) * ((\<bar>max_value g\<bar> * 1) div 5),
                0]"
proof -
  define m where "m = max_value g"
  have m: "\<bar>m\<bar> < 2 ^ 50" using assms by (simp add: m_def)
  have lab: "tick_label m k = Inr (sgn m * ((\<bar>m\<bar> * k) div 5))" if "k \<in> {1, 2, 3, 4}" for k
  proof -
    have k: "0 < k" "k \<le> 4" using that by auto
    have "\<bar>m * k\<bar> = \<bar>m\<bar> * k" using k by (simp add: abs_mult)
    also have "\<dots> \<le> \<bar>m\<bar> * 4" using k by (intro mult_left_mono) simp_all
    also have "\<dots> < 2 ^ 53" using m by simp
    finally have b: "\<bar>m * k\<bar> < 2 ^ 53" .
    have "(if 0 \<le> m * k then m * k div 5 else - ((- (m * k)) div 5)) = sgn m * ((\<bar>m\<bar> * k) div 5)"
    proof (cases "0 \<le> m")
      case True
      then have "0 \<le> m * k" using k by simp
      then show ?thesis using True by (cases "m = 0") (simp_all add: sgn_if)
    next
      case False
      then have "m * k < 0" using k by (simp add: mult_neg_pos)
      then show ?thesis using False by (simp add: sgn_if)
    qed
    then show ?thesis
      using int_true_div_5_truncates [OF b] by (simp add: tick_label_def)
  qed
  show ?thesis
    by (simp add: tick_labels_def m_def [symmetric] lab bind_err_Inr)
qed

lemma tick_labels_cases:
  "(2 ^ 50 \<le> \<bar>max_value g\<bar> \<and> tick_labels g = Inl OverflowError) \<or>
    (\<exists>y4 y3 y2 y1.
       int_true_div (max_value g * 4) 5 = Inr (Finite y4) \<and>
       int_true_div (max_value g * 3) 5 = Inr (Finite y3) \<and>
       int_true_div (max_value g * 2) 5 = Inr (Finite y2) \<and>
       int_true_div (max_value g * 1) 5 = Inr (Finite y1) \<and>
       tick_labels g =
         Inr [max_value g,
              if 0 \<le> y4 then \<lfloor>y4\<rfloor> else \<lceil>y4\<rceil>,
              if 0 \<le> y3 then \<lfloor>y3\<rfloor> else \<lceil>y3\<rceil>,
              if 0 \<le> y2 then \<lfloor>y2\<rfloor> else \<lceil>y2\<rceil>,
              if 0 \<le> y1 then \<lfloor>y1\<rfloor> else \<lceil>y1\<rceil>,
              0])"
proof -
  define m where "m = max_value g"
  show ?thesis
  proof (cases "tick_labels g = Inl OverflowError")
    case True
    have "2 ^ 50 \<le> \<bar>max_value g\<bar>"
    proof (rule ccontr)
      assume "\<not> 2 ^ 50 \<le> \<bar>max_value g\<bar>"
      then have "\<bar>max_value g\<bar> < 2 ^ 50" by simp
      from tick_labels_exact [OF this] True show False by simp
    qed
    with True show ?thesis by simp
  next
    case False
    have l4: "tick_label m 4 \<noteq> Inl OverflowError"
      using False by (auto simp add: tick_labels_def m_def bind_err_Inl)
    then obtain y4 where y4: "int_true_div (m * 4) 5 = Inr (Finite y4)"
      "tick_label m 4 = Inr (if 0 \<le> y4 then \<lfloor>y4\<rfloor> else \<lceil>y4\<rceil>)"
      using tick_label_cases [of m 4] by blast
    have l3: "tick_label m 3 \<noteq> Inl OverflowError"
      using False y4(2) by (auto simp add: tick_labels_def m_def bind_err_Inl bind_err_Inr)
    then obtain y3 where y3: "int_true_div (m * 3) 5 = Inr (Finite y3)"
      "tick_label m 3 = Inr (if 0 \<le> y3 then \<lfloor>y3\<rfloor> else \<lceil>y3\<rceil>)"
      using tick_label_cases [of m 3] by blast
    have l2: "tick_label m 2 \<noteq> Inl OverflowError"
      using False y4(2) y3(2) by (auto simp add: tick_labels_def m_def bind_err_Inl bind_err_Inr)
    then obtain y2 where y2: "int_true_div (m * 2) 5 = Inr (Finite y2)"
      "tick_label m 2 = Inr (if 0 \<le> y2 then \<lfloor>y2\<rfloor> else \<lceil>y2\<rceil>)"
      using tick_label_cases [of m 2] by blast
    have l1: "tick_label m 1 \<noteq> Inl OverflowError"
      using False y4(2) y3(2) y2(2)
      by (auto simp add: tick_labels_def m_def bind_err_Inl bind_err_Inr)
    then obtain y1 where y1: "int_true_div (m * 1) 5 = Inr (Finite y1)"
      "tick_label m 1 = Inr (if 0 \<le> y1 then \<lfloor>y1\<rfloor> else \<lceil>y1\<rceil>)"
      using tick_label_cases [of m 1] by blast
    have "tick_labels g =
         Inr [m,
              if 0 \<le> y4 then \<lfloor>y4\<rfloor> else \<lceil>y4\<rceil>,
              if 0 \<le> y3 then \<lfloor>y3\<rfloor> else \<lceil>y3\<rceil>,
              if 0 \<le> y2 then \<lfloor>y2\<rfloor> else \<lceil>y2\<rceil>,
              if 0 \<le> y1 then \<lfloor>y1\<rfloor> else \<lceil>y1\<rceil>,
              0]"
      unfolding tick_labels_def m_def [symmetric]
      by (simp only: y4(2) y3(2) y2(2) y1(2) bind_err_Inr)
    with y4(1) y3(1) y2(1) y1(1) show ?thesis
      unfolding m_def by blast
  qed
qed

lemma fill_total:
  assumes "0 < max_value g" and "max_value g < 2 ^ 1023"
    and "0 \<le> gauge_value g" and "gauge_value g \<le> max_value g"
  shows "(\<exists>r. Temp_Gauge_fill_ratio g = Inr r) \<and> (\<exists>s. Tachometer_arc_fill g = Inr s)"
proof -
  define e :: rat where "e = 1 / 2 ^ 53"
  have e: "0 < e" "e \<le> 1 / 8"
    by (simp_all add: e_def)
  have mr: "(1::rat) \<le> of_int (max_value g)"
    using assms(1) by simp
  have m0: "0 \<le> max_value g"
    using assms(1) by simp
  from float_of_int_nonneg_cases [OF m0] assms(2) obtain ym where
    ym: "float_of_int (max_value g) = Inr (Finite ym)"
      "of_int (max_value g) * (1 - e) \<le> ym" "ym < 2 ^ 1024"
    unfolding e_def by auto
  have "of_int (max_value g) * (7 / 8 :: rat) \<le> of_int (max_value g) * (1 - e)"
    using e mr by (intro mult_left_mono) simp_all
  then have ym_m: "of_int (max_value g) * (7 / 8) \<le> ym"
    using ym(2) by simp
  then have ym_pos: "7 / 8 \<le> ym"
    using mr by simp
  from half_max_value [OF ym(1) ym_pos ym(3)] obtain h where
    h: "int_mul_float (max_value g) (float_lit (5 / 10)) = Inr (Finite h)"
      "ym * (7 / 16) \<le> h" "h \<le> ym * (9 / 16)"
    by blast
  have h_pos: "h \<noteq> 0"
    using h(2) ym_pos by auto
  have v2: "gauge_value g < 2 ^ 1023"
    using assms(2,4) by simp
  from float_of_int_nonneg_cases [OF assms(3)] v2 obtain yv where
    yv: "float_of_int (gauge_value g) = Inr (Finite yv)"
      "of_int (gauge_value g) * (1 - e) \<le> yv" "yv \<le> of_int (gauge_value g) * (1 + e)"
    unfolding e_def by auto
  have vr: "(0::rat) \<le> of_int (gauge_value g)"
    using assms(3) by simp
  have "0 \<le> of_int (gauge_value g) * (1 - e)"
    using e vr by simp
  then have yv0: "0 \<le> yv"
    using yv(2) by simp
  have "of_int (gauge_value g) * (1 + e) \<le> of_int (gauge_value g) * (9 / 8 :: rat)"
    using e vr by (intro mult_left_mono) simp_all
  then have yv_hi: "yv \<le> of_int (gauge_value g) * (9 / 8)"
    using yv(3) by simp
  have h': "int_mul_float (max_value g) (float_lit (1 / 2)) = Inr (Finite h)"
    using h(1) by simp
  have "Temp_Gauge_fill_ratio g = Inr (float_round (yv / h))"
    using h_pos by (simp add: Temp_Gauge_fill_ratio_def h' int_div_float_def yv(1) bind_err_Inr)
  moreover from arc_fill_from_floats [OF assms(1,4) ym(1) ym_pos ym_m h yv(1) yv0 yv_hi]
  have "\<exists>s. Tachometer_arc_fill g = Inr s" by blast
  ultimately show ?thesis by blast
qed

lemma fill_zero_max:
  assumes "max_value g = 0" and "\<bar>gauge_value g\<bar> < 2 ^ 53"
  shows "Temp_Gauge_fill_ratio g = Inl ZeroDivisionError"
    and "Tachometer_arc_fill g = Inl ZeroDivisionError"
proof -
  have z: "float_of_int 0 = Inr (Finite 0)"
    using float_of_int_small [of 0] by simp
  have h: "int_mul_float (max_value g) (float_lit (1 / 2)) = Inr (Finite 0)"
    by (simp add: assms(1) int_mul_float_def z bind_err_Inr float_lit_half float_round_def)
  have q: "int_div_float (gauge_value g) (Finite 0) = Inl ZeroDivisionError"
    by (simp add: int_div_float_def float_of_int_small [OF assms(2)] bind_err_Inr)
  show "Temp_Gauge_fill_ratio g = Inl ZeroDivisionError"
    by (simp add: Temp_Gauge_fill_ratio_def h q bind_err_Inr)
  show "Tachometer_arc_fill g = Inl ZeroDivisionError"
    by (simp add: Tachometer_arc_fill_def Tachometer_arc_value_def h q bind_err_Inr bind_err_Inl)
qed

lemma labels_drawn:
  assumes "Temp_Gauge_tick_labels g = Inr ls \<or> Tachometer_tick_labels g = Inr ls"
  shows "tick_labels g = Inr ls"
proof -
  have a: "tick_labels g = Inr ls" if "bind_err x (\<lambda>r. tick_labels g) = Inr ls" for x :: "error + 'a"
    using that by (cases x) (simp_all add: bind_err_Inl bind_err_Inr)
  from assms show ?thesis
    unfolding Temp_Gauge_tick_labels_def Tachometer_tick_labels_def
    by (auto dest: a)
qed

text \<open>
  C9. The labelled ticks of the temperature gauge and of the tachometer show
  \<open>max_value\<close>, then \<^verbatim>\<open>int(max_value*k/5)\<close> for \<open>k = 4, 3, 2, 1\<close>, then 0.
  Whenever a \<^verbatim>\<open>paintEvent\<close> gets to the labels, each label is the float quotient
  cut off towards zero by \<^verbatim>\<open>int\<close>; for \<open>|max_value| < 2^50\<close> the float quotient
  never reaches the next integer, so the label is the exact quotient
  \<open>max_value * k / 5\<close> cut off towards zero, \<open>sgn max_value * ((|max_value| * k) div 5)\<close>,
  and never the rounded quotient. For \<open>0 < max_value < 2^50\<close> and a value in
  \<open>0..max_value\<close> both gauges do get to the labels. With \<open>max_value = 300\<close> the labels
  are 300, 240, 180, 120, 60, 0; with \<open>max_value = 3\<close> they are 3, 2, 1, 1, 0, 0, where
  rounding would give 3, 2, 2, 1, 1, 0. With \<open>max_value = 0\<close> no label is drawn: the
  value fill before them divides by \<^verbatim>\<open>max_value*.5\<close> and raises ZeroDivisionError.
\<close>

theorem tick_labels_truncate:
  "(\<forall>ls. Temp_Gauge_tick_labels g = Inr ls \<or> Tachometer_tick_labels g = Inr ls \<longrightarrow>
      (\<exists>y4 y3 y2 y1.
         int_true_div (max_value g * 4) 5 = Inr (Finite y4) \<and>
         int_true_div (max_value g * 3) 5 = Inr (Finite y3) \<and>
         int_true_div (max_value g * 2) 5 = Inr (Finite y2) \<and>
         int_true_div (max_value g * 1) 5 = Inr (Finite y1) \<and>
         ls = [max_value g,
               if 0 \<le> y4 then \<lfloor>y4\<rfloor> else \<lceil>y4\<rceil>,
               if 0 \<le> y3 then \<lfloor>y3\<rfloor> else \<lceil>y3\<rceil>,
               if 0 \<le> y2 then \<lfloor>y2\<rfloor> else \<lceil>y2\<rceil>,
               if 0 \<le> y1 then \<lfloor>y1\<rfloor> else \<lceil>y1\<rceil>,
               0]) \<and>
      (\<bar>max_value g\<bar> < 2 ^ 50 \<longrightarrow>
         ls = [max_value g,
               sgn (max_value g) * ((\<bar>max_value g\<bar> * 4) div 5),
               sgn (max_value g) * ((\<bar>max_value g\<bar> * 3) div 5),
               sgn (max_value g) * ((\<bar>max_value g\<bar> * 2) div 5),
               sgn (max_value g) * ((\<bar>max_value g\<bar> * 1) div 5),
               0])) \<and>
   (0 < max_value g \<and> max_value g < 2 ^ 50 \<and> 0 \<le> gauge_value g \<and> gauge_value g \<le> max_value g \<longrightarrow>
      Temp_Gauge_tick_labels g =
        Inr [max_value g, (max_value g * 4) div 5, (max_value g * 3) div 5,
             (max_value g * 2) div 5, (max_value g * 1) div 5, 0] \<and>
      Tachometer_tick_labels g =
        Inr [max_value g, (max_value g * 4) div 5, (max_value g * 3) div 5,
             (max_value g * 2) div 5, (max_value g * 1) div 5, 0]) \<and>
   (max_value g = 0 \<and> \<bar>gauge_value g\<bar> < 2 ^ 53 \<longrightarrow>
      Temp_Gauge_tick_labels g = Inl ZeroDivisionError \<and>
      Tachometer_tick_labels g = Inl ZeroDivisionError)"
proof (intro conjI allI impI)
  fix ls
  assume "Temp_Gauge_tick_labels g = Inr ls \<or> Tachometer_tick_labels g = Inr ls"
  then have ls: "tick_labels g = Inr ls"
    by (rule labels_drawn)
  from tick_labels_cases [of g] ls
  obtain y4 y3 y2 y1 where y:
       "int_true_div (max_value g * 4) 5 = Inr (Finite y4)"
       "int_true_div (max_value g * 3) 5 = Inr (Finite y3)"
       "int_true_div (max_value g * 2) 5 = Inr (Finite y2)"
       "int_true_div (max_value g * 1) 5 = Inr (Finite y1)"
       "tick_labels g =
         Inr [max_value g,
              if 0 \<le> y4 then \<lfloor>y4\<rfloor> else \<lceil>y4\<rceil>,
              if 0 \<le> y3 then \<lfloor>y3\<rfloor> else \<lceil>y3\<rceil>,
              if 0 \<le> y2 then \<lfloor>y2\<rfloor> else \<lceil>y2\<rceil>,
              if 0 \<le> y1 then \<lfloor>y1\<rfloor> else \<lceil>y1\<rceil>,
              0]"
    by (elim disjE conjE exE) simp_all
  from y(5) ls have "ls = [max_value g,
              if 0 \<le> y4 then \<lfloor>y4\<rfloor> else \<lceil>y4\<rceil>,
              if 0 \<le> y3 then \<lfloor>y3\<rfloor> else \<lceil>y3\<rceil>,
              if 0 \<le> y2 then \<lfloor>y2\<rfloor> else \<lceil>y2\<rceil>,
              if 0 \<le> y1 then \<lfloor>y1\<rfloor> else \<lceil>y1\<rceil>,
              0]"
    by simp
  with y(1-4)
  show "\<exists>y4 y3 y2 y1.
         int_true_div (max_value g * 4) 5 = Inr (Finite y4) \<and>
         int_true_div (max_value g * 3) 5 = Inr (Finite y3) \<and>
         int_true_div (max_value g * 2) 5 = Inr (Finite y2) \<and>
         int_true_div (max_value g * 1) 5 = Inr (Finite y1) \<and>
         ls = [max_value g,
               if 0 \<le> y4 then \<lfloor>y4\<rfloor> else \<lceil>y4\<rceil>,
               if 0 \<le> y3 then \<lfloor>y3\<rfloor> else \<lceil>y3\<rceil>,
               if 0 \<le> y2 then \<lfloor>y2\<rfloor> else \<lceil>y2\<rceil>,
               if 0 \<le> y1 then \<lfloor>y1\<rfloor> else \<lceil>y1\<rceil>,
               0]"
    by blast
  assume "\<bar>max_value g\<bar> < 2 ^ 50"
  from tick_labels_exact [OF this] ls
  show "ls = [max_value g,
               sgn (max_value g) * ((\<bar>max_value g\<bar> * 4) div 5),
               sgn (max_value g) * ((\<bar>max_value g\<bar> * 3) div 5),
               sgn (max_value g) * ((\<bar>max_value g\<bar> * 2) div 5),
               sgn (max_value g) * ((\<bar>max_value g\<bar> * 1) div 5),
               0]"
    by simp
next
  assume a: "0 < max_value g \<and> max_value g < 2 ^ 50 \<and> 0 \<le> gauge_value g \<and> gauge_value g \<le> max_value g"
  have "(2::int) ^ 50 \<le> 2 ^ 1023"
    by (rule power_increasing) simp_all
  with a have "max_value g < 2 ^ 1023"
    by linarith
  with a fill_total [of g] obtain r s where
    r: "Temp_Gauge_fill_ratio g = Inr r" and s: "Tachometer_arc_fill g = Inr s"
    by blast
  have "\<bar>max_value g\<bar> < 2 ^ 50"
    using a by simp
  from tick_labels_exact [OF this] a
  have t: "tick_labels g =
        Inr [max_value g, (max_value g * 4) div 5, (max_value g * 3) div 5,
             (max_value g * 2) div 5, (max_value g * 1) div 5, 0]"
    by simp
  show "Temp_Gauge_tick_labels g =
        Inr [max_value g, (max_value g * 4) div 5, (max_value g * 3) div 5,
             (max_value g * 2) div 5, (max_value g * 1) div 5, 0]"
    by (simp only: Temp_Gauge_tick_labels_def r bind_err_Inr t)
  show "Tachometer_tick_labels g =
        Inr [max_value g, (max_value g * 4) div 5, (max_value g * 3) div 5,
             (max_value g * 2) div 5, (max_value g * 1) div 5, 0]"
    by (simp only: Tachometer_tick_labels_def s bind_err_Inr t)
next
  assume a: "max_value g = 0 \<and> \<bar>gauge_value g\<bar> < 2 ^ 53"
  then show "Temp_Gauge_tick_labels g = Inl ZeroDivisionError"
    by (simp add: Temp_Gauge_tick_labels_def fill_zero_max(1) bind_err_Inl)
  from a show "Tachometer_tick_labels g = Inl ZeroDivisionError"
    by (simp add: Tachometer_tick_labels_def fill_zero_max(2) bind_err_Inl)
qed

theorem tick_labels_truncate_witness:
  "Temp_Gauge_tick_labels \<lparr>console = [], redraws = 0, gauge_value = 0, max_value = 300\<rparr>
     = Inr [300, 240, 180, 120, 60, 0] \<and>
   Tachometer_tick_labels \<lparr>console = [], redraws = 0, gauge_value = 2, max_value = 3\<rparr>
     = Inr [3, 2, 1, 1, 0, 0] \<and>
   Temp_Gauge_tick_labels \<lparr>console = [], redraws = 0, gauge_value = 0, max_value = 0\<rparr>
     = Inl ZeroDivisionError"
proof (intro conjI)
  let ?a = "\<lparr>console = [], redraws = 0, gauge_value = 0, max_value = 300\<rparr>"
  let ?b = "\<lparr>console = [], redraws = 0, gauge_value = 2, max_value = 3\<rparr>"
  let ?c = "\<lparr>console = [], redraws = 0, gauge_value = 0, max_value = 0\<rparr>"
  show "Temp_Gauge_tick_labels ?a = Inr [300, 240, 180, 120, 60, 0]"
    using tick_labels_truncate [of ?a, THEN conjunct2, THEN conjunct1] by simp
  show "Tachometer_tick_labels ?b = Inr [3, 2, 1, 1, 0, 0]"
    using tick_labels_truncate [of ?b, THEN conjunct2, THEN conjunct1] by simp
  show "Temp_Gauge_tick_labels ?c = Inl ZeroDivisionError"
    using tick_labels_truncate [of ?c, THEN conjunct2, THEN conjunct2] by simp
qed

end
